theory Spec2Isabelle
  imports Main "HOL-Library.Word"
begin

section \<open>The contiguous memory allocator of allocator.c\<close>

text \<open>
  The program keeps one singly linked list of \<open>MemoryBlock\<close> nodes, headed by the global
  \<open>memory_head\<close>, and the global \<open>total_memory_size\<close>. The embedding keeps the fields
  and their C types: \<open>unsigned int\<close> is a 32-bit word, \<open>size_t\<close> a 64-bit word (the
  x64 target of the Windows build), \<open>uint8_t\<close> an 8-bit word, and the \<open>char[100]\<close>
  buffer a string. The \<open>next\<close> pointers are the order of a HOL list, and a pointer to a
  node is the node's position in that list.
\<close>

type_synonym size_t = "64 word"
type_synonym uint = "32 word"
type_synonym uint8_t = "8 word"

record MemoryBlock =
  start_address :: uint
  size' :: size_t
  is_allocated :: uint8_t
  process_id :: string

record allocator =
  memory_head :: "MemoryBlock list"
  total_memory_size :: size_t

text \<open>\<open>#define MAX_MEMORY (4ULL * 1024 * 1024)\<close>\<close>

definition MAX_MEMORY :: size_t where
  "MAX_MEMORY = 4 * 1024 * 1024"

text \<open>
  The functions print one line and return nothing; the line is the outcome the caller sees.
  \<open>exit(EXIT_FAILURE)\<close> after a failed \<open>malloc\<close> ends the process: it is the left
  summand of the result. Each function calls \<open>malloc\<close> at most once, so whether that call
  returns a node is one boolean argument, \<open>malloc_ok\<close>.
\<close>

datatype message = Allocated | InsufficientSpace | Released | NotFound | CompactionCompleted

datatype abort = EXIT_FAILURE

subsection \<open>initializeMemory and the size check of main\<close>

definition initializeMemory :: "bool \<Rightarrow> size_t \<Rightarrow> abort + allocator" where
  "initializeMemory malloc_ok memory_size =
     (if \<not> malloc_ok then Inl EXIT_FAILURE
      else Inr \<lparr>memory_head =
                  [\<lparr>start_address = 0, size' = memory_size, is_allocated = 0,
                    process_id = ''FREE''\<rparr>],
                total_memory_size = memory_size\<rparr>)"

text \<open>
  \<open>main\<close>, from the parsed number on: a size of 0 or above \<open>MAX_MEMORY\<close> ends the
  process before \<open>initializeMemory\<close> is called.
\<close>

definition startup :: "bool \<Rightarrow> size_t \<Rightarrow> abort + allocator" where
  "startup malloc_ok memory_size =
     (if memory_size = 0 \<or> memory_size > MAX_MEMORY then Inl EXIT_FAILURE
      else initializeMemory malloc_ok memory_size)"

subsection \<open>releaseMemory\<close>

text \<open>
  The loop walks \<open>current\<close> down the list with \<open>prev\<close> one node behind. \<open>visited\<close> holds
  the nodes already passed, the nearest first, so \<open>prev\<close> is its head (and NULL when it is
  empty). \<open>None\<close> is the loop running off the end of the list.
\<close>

fun release_loop :: "string \<Rightarrow> MemoryBlock list \<Rightarrow> MemoryBlock list \<Rightarrow> MemoryBlock list option" where
  "release_loop pid visited [] = None"
| "release_loop pid visited (current # rest) =
     (if is_allocated current \<noteq> 0 \<and> process_id current = pid then
        let current = current\<lparr>is_allocated := 0, process_id := ''FREE''\<rparr>;
            (visited, current) =
              (case visited of
                 prev # before \<Rightarrow>
                   if is_allocated prev = 0
                   then (before, prev\<lparr>size' := size' prev + size' current\<rparr>)
                   else (visited, current)
               | [] \<Rightarrow> (visited, current));
            (current, rest) =
              (case rest of
                 next # after \<Rightarrow>
                   if is_allocated next = 0
                   then (current\<lparr>size' := size' current + size' next\<rparr>, after)
                   else (current, rest)
               | [] \<Rightarrow> (current, rest))
        in Some (rev visited @ current # rest)
      else release_loop pid (current # visited) rest)"

definition releaseMemory :: "string \<Rightarrow> allocator \<Rightarrow> message \<times> allocator" where
  "releaseMemory pid st =
     (case release_loop pid [] (memory_head st) of
        Some blocks \<Rightarrow> (Released, st\<lparr>memory_head := blocks\<rparr>)
      | None \<Rightarrow> (NotFound, st))"

subsection \<open>firstFit, bestFit, worstFit\<close>

text \<open>
  Each search returns a pointer to a node or NULL: here the node's index in the list, or
  \<open>None\<close>. \<open>i\<close> is the index of \<open>current\<close>; \<open>mem\<close> is the whole list, read where the
  code reads \<open>best->size\<close> and \<open>worst->size\<close>.
\<close>

fun firstFit_loop :: "size_t \<Rightarrow> nat \<Rightarrow> MemoryBlock list \<Rightarrow> nat option" where
  "firstFit_loop sz i [] = None"
| "firstFit_loop sz i (current # rest) =
     (if is_allocated current = 0 \<and> size' current \<ge> sz then Some i
      else firstFit_loop sz (Suc i) rest)"

definition firstFit :: "size_t \<Rightarrow> MemoryBlock list \<Rightarrow> nat option" where
  "firstFit sz mem = firstFit_loop sz 0 mem"

fun bestFit_loop :: "size_t \<Rightarrow> MemoryBlock list \<Rightarrow> nat option \<Rightarrow> nat \<Rightarrow> MemoryBlock list \<Rightarrow> nat option" where
  "bestFit_loop sz mem best i [] = best"
| "bestFit_loop sz mem best i (current # rest) =
     bestFit_loop sz mem
       (if is_allocated current = 0 \<and> size' current \<ge> sz \<and>
           (case best of None \<Rightarrow> True | Some j \<Rightarrow> size' current < size' (mem ! j))
        then Some i else best)
       (Suc i) rest"

definition bestFit :: "size_t \<Rightarrow> MemoryBlock list \<Rightarrow> nat option" where
  "bestFit sz mem = bestFit_loop sz mem None 0 mem"

fun worstFit_loop :: "size_t \<Rightarrow> MemoryBlock list \<Rightarrow> nat option \<Rightarrow> nat \<Rightarrow> MemoryBlock list \<Rightarrow> nat option" where
  "worstFit_loop sz mem worst i [] = worst"
| "worstFit_loop sz mem worst i (current # rest) =
     worstFit_loop sz mem
       (if is_allocated current = 0 \<and> size' current \<ge> sz \<and>
           (case worst of None \<Rightarrow> True | Some j \<Rightarrow> size' current > size' (mem ! j))
        then Some i else worst)
       (Suc i) rest"

definition worstFit :: "size_t \<Rightarrow> MemoryBlock list \<Rightarrow> nat option" where
  "worstFit sz mem = worstFit_loop sz mem None 0 mem"

subsection \<open>requestMemory\<close>

text \<open>
  The \<open>switch\<close> has no default: any other strategy character leaves \<open>block\<close> NULL.
\<close>

definition select_block :: "char \<Rightarrow> size_t \<Rightarrow> MemoryBlock list \<Rightarrow> nat option" where
  "select_block strategy sz mem =
     (if strategy = CHR ''F'' then firstFit sz mem
      else if strategy = CHR ''B'' then bestFit sz mem
      else if strategy = CHR ''W'' then worstFit sz mem
      else None)"

text \<open>
  \<open>strncpy(block->process_id, process_id, sizeof(block->process_id) - 1)\<close> copies at most
  99 characters. An id of fewer than 99 characters is stored whole, with its terminator. Of
  an id of 99 or more characters the first 99 are stored and no terminator is written: the
  last byte of the buffer is never written by the program, so what \<open>strcmp\<close> and
  \<open>printf\<close> later read behind the 99 characters is not fixed by the source. It is the
  argument \<open>unwritten\<close>, empty when that byte happens to be 0, and taken as given at
  the time of the call. The field \<open>process_id\<close> holds the string a reader of the buffer
  finds.
\<close>

definition stored_id :: "string \<Rightarrow> string \<Rightarrow> string" where
  "stored_id unwritten pid = (if length pid < 99 then pid else take 99 pid @ unwritten)"

text \<open>
  \<open>block->start_address + size\<close> is computed in \<open>size_t\<close> and stored in an
  \<open>unsigned int\<close>.
\<close>

definition requestMemory :: "bool \<Rightarrow> string \<Rightarrow> string \<Rightarrow> size_t \<Rightarrow> char \<Rightarrow> allocator \<Rightarrow> abort + message \<times> allocator" where
  "requestMemory malloc_ok unwritten pid sz strategy st =
     (let mem = memory_head st in
      case select_block strategy sz mem of
        Some i \<Rightarrow>
          let block = mem ! i in
          if size' block > sz then
            if \<not> malloc_ok then Inl EXIT_FAILURE
            else
              let new_block =
                    \<lparr>start_address = ucast (ucast (start_address block) + sz :: size_t),
                     size' = size' block - sz, is_allocated = 0, process_id = ''FREE''\<rparr>;
                  block = block\<lparr>size' := sz, is_allocated := 1, process_id := stored_id unwritten pid\<rparr>
              in Inr (Allocated,
                      st\<lparr>memory_head := take i mem @ block # new_block # drop (Suc i) mem\<rparr>)
          else
            Inr (Allocated,
                 st\<lparr>memory_head := mem[i := block\<lparr>is_allocated := 1, process_id := stored_id unwritten pid\<rparr>]\<rparr>)
      | None \<Rightarrow> Inr (InsufficientSpace, st))"

subsection \<open>compactMemory\<close>

text \<open>
  First loop: every allocated node gets the running \<open>next_free_address\<close> as its start, and
  the cursor advances by the node's size (the sum is computed in \<open>size_t\<close> and stored in an
  \<open>unsigned int\<close>). The result is the list with the new starts and the final cursor.
\<close>

fun compact_move :: "uint \<Rightarrow> MemoryBlock list \<Rightarrow> MemoryBlock list \<times> uint" where
  "compact_move next_free_address [] = ([], next_free_address)"
| "compact_move next_free_address (current # rest) =
     (if is_allocated current \<noteq> 0 then
        let (rest', final) =
              compact_move (ucast (ucast next_free_address + size' current :: size_t)) rest
        in (current\<lparr>start_address := next_free_address\<rparr> # rest', final)
      else
        let (rest', final) = compact_move next_free_address rest
        in (current # rest', final))"

text \<open>Second loop: every free node is unlinked.\<close>

fun compact_remove_free :: "MemoryBlock list \<Rightarrow> MemoryBlock list" where
  "compact_remove_free [] = []"
| "compact_remove_free (current # rest) =
     (if is_allocated current = 0 then compact_remove_free rest
      else current # compact_remove_free rest)"

text \<open>
  After the second loop only allocated nodes are left, so \<open>last_allocated_block\<close>, when not
  NULL, is the last node of the list: linking the new free node behind it appends to the
  list, and with no allocated node at all the list is empty and the new node becomes the
  head. In the other branch \<open>last_allocated_block->next = NULL\<close> changes nothing.
\<close>

definition compactMemory :: "bool \<Rightarrow> allocator \<Rightarrow> abort + message \<times> allocator" where
  "compactMemory malloc_ok st =
     (let (moved, next_free_address) = compact_move 0 (memory_head st);
          kept = compact_remove_free moved
      in if ucast next_free_address < total_memory_size st then
           if \<not> malloc_ok then Inl EXIT_FAILURE
           else
             let free_block =
                   \<lparr>start_address = next_free_address,
                    size' = total_memory_size st - ucast next_free_address,
                    is_allocated = 0, process_id = ''FREE''\<rparr>
             in Inr (CompactionCompleted, st\<lparr>memory_head := kept @ [free_block]\<rparr>)
         else Inr (CompactionCompleted, st\<lparr>memory_head := kept\<rparr>))"

subsection \<open>Sequences of calls\<close>

text \<open>
  One call of the engine, as \<open>executeCommand\<close> makes it after decoding a line, together
  with what the program does not fix for that call: the outcome of the \<open>malloc\<close> it may
  make, and what is read behind an unterminated id.
\<close>

datatype call = Request string size_t char | Release string | Compact

fun apply_call :: "bool \<times> string \<times> call \<Rightarrow> allocator \<Rightarrow> abort + allocator" where
  "apply_call (malloc_ok, unwritten, Request pid sz strategy) st =
     (case requestMemory malloc_ok unwritten pid sz strategy st of
        Inl e \<Rightarrow> Inl e | Inr (m, st') \<Rightarrow> Inr st')"
| "apply_call (malloc_ok, unwritten, Release pid) st = Inr (snd (releaseMemory pid st))"
| "apply_call (malloc_ok, unwritten, Compact) st =
     (case compactMemory malloc_ok st of
        Inl e \<Rightarrow> Inl e | Inr (m, st') \<Rightarrow> Inr st')"

fun run :: "(bool \<times> string \<times> call) list \<Rightarrow> allocator \<Rightarrow> abort + allocator" where
  "run [] st = Inr st"
| "run (c # cs) st =
     (case apply_call c st of Inl e \<Rightarrow> Inl e | Inr st' \<Rightarrow> run cs st')"

subsection \<open>The invariants of the block list\<close>

text \<open>
  Invariant 1: the blocks tile \<open>[a, t)\<close> in order: the first starts at \<open>a\<close>, each ends
  where the next starts, the last ends at \<open>t\<close>. Ends are sums of natural numbers, so no
  wrap-around hides a gap.
\<close>

fun partitions :: "nat \<Rightarrow> MemoryBlock list \<Rightarrow> nat \<Rightarrow> bool" where
  "partitions a [] t = (a = t)"
| "partitions a (b # bs) t =
     (unat (start_address b) = a \<and> partitions (a + unat (size' b)) bs t)"

text \<open>Invariant 2: no two neighbours are both free.\<close>

fun no_adjacent_free :: "MemoryBlock list \<Rightarrow> bool" where
  "no_adjacent_free (a # b # bs) =
     (\<not> (is_allocated a = 0 \<and> is_allocated b = 0) \<and> no_adjacent_free (b # bs))"
| "no_adjacent_free bs = True"

text \<open>Invariant 3: every size is positive.\<close>

definition positive_sizes :: "MemoryBlock list \<Rightarrow> bool" where
  "positive_sizes bs = list_all (\<lambda>b. 0 < size' b) bs"

definition invariants :: "allocator \<Rightarrow> bool" where
  "invariants st =
     (memory_head st \<noteq> [] \<and>
      partitions 0 (memory_head st) (unat (total_memory_size st)) \<and>
      no_adjacent_free (memory_head st) \<and>
      positive_sizes (memory_head st))"

text \<open>
  The states the properties below are about: the invariants hold and the capacity is one
  that \<open>main\<close> accepts.
\<close>

definition valid :: "allocator \<Rightarrow> bool" where
  "valid st =
     (invariants st \<and> 0 < total_memory_size st \<and> total_memory_size st \<le> MAX_MEMORY)"

subsection \<open>Labels and layout\<close>

text \<open>The label of a block: free, or owned by a process.\<close>

datatype owner = Free | Owned string

definition owner_of :: "MemoryBlock \<Rightarrow> owner" where
  "owner_of b = (if is_allocated b = 0 then Free else Owned (process_id b))"

text \<open>The test of the three searches: the node is free and large enough.\<close>

definition fits :: "size_t \<Rightarrow> MemoryBlock \<Rightarrow> bool" where
  "fits sz b = (is_allocated b = 0 \<and> sz \<le> size' b)"

text \<open>The test of the release loop: the node is allocated and carries the id.\<close>

definition owned_by :: "string \<Rightarrow> MemoryBlock \<Rightarrow> bool" where
  "owned_by pid b = (is_allocated b \<noteq> 0 \<and> process_id b = pid)"

text \<open>The partition and the labels of a state: start, size and owner of every block, in order.\<close>

definition layout :: "allocator \<Rightarrow> (nat \<times> nat \<times> owner) list" where
  "layout st = map (\<lambda>b. (unat (start_address b), unat (size' b), owner_of b)) (memory_head st)"

text \<open>The precondition of a request: the size is positive. The other calls have none.\<close>

fun positive_request :: "bool \<times> string \<times> call \<Rightarrow> bool" where
  "positive_request (malloc_ok, unwritten, Request pid sz strategy) = (0 < sz)"
| "positive_request (malloc_ok, unwritten, Release pid) = True"
| "positive_request (malloc_ok, unwritten, Compact) = True"

subsection \<open>Notions used in the proofs\<close>

text \<open>The sum of the sizes of a run of blocks.\<close>

definition extent :: "MemoryBlock list \<Rightarrow> nat" where
  "extent bs = sum_list (map (\<lambda>b. unat (size' b)) bs)"

text \<open>
  The loop invariants of \<open>bestFit\<close> and \<open>worstFit\<close> after the first \<open>n\<close> nodes:
  \<open>best\<close> is NULL when none of them fits; otherwise it fits, no fitting node among them
  is smaller (larger), and every fitting node before it is strictly larger (smaller).
\<close>

definition best_so_far :: "size_t \<Rightarrow> MemoryBlock list \<Rightarrow> nat \<Rightarrow> nat option \<Rightarrow> bool" where
  "best_so_far sz mem n best =
     (case best of
        None \<Rightarrow> \<forall>k<n. \<not> fits sz (mem ! k)
      | Some j \<Rightarrow> j < n \<and> fits sz (mem ! j) \<and>
          (\<forall>k<n. fits sz (mem ! k) \<longrightarrow> size' (mem ! j) \<le> size' (mem ! k)) \<and>
          (\<forall>k<j. fits sz (mem ! k) \<longrightarrow> size' (mem ! j) < size' (mem ! k)))"

definition worst_so_far :: "size_t \<Rightarrow> MemoryBlock list \<Rightarrow> nat \<Rightarrow> nat option \<Rightarrow> bool" where
  "worst_so_far sz mem n worst =
     (case worst of
        None \<Rightarrow> \<forall>k<n. \<not> fits sz (mem ! k)
      | Some j \<Rightarrow> j < n \<and> fits sz (mem ! j) \<and>
          (\<forall>k<n. fits sz (mem ! k) \<longrightarrow> size' (mem ! k) \<le> size' (mem ! j)) \<and>
          (\<forall>k<j. fits sz (mem ! k) \<longrightarrow> size' (mem ! k) < size' (mem ! j)))"

text \<open>
  What requestMemory puts in the place of the selected node \<open>c\<close>: the node shrunk and
  relabelled followed by the new free node when \<open>c\<close> is larger than the request, the
  node relabelled otherwise.
\<close>

definition placed :: "string \<Rightarrow> string \<Rightarrow> size_t \<Rightarrow> MemoryBlock \<Rightarrow> MemoryBlock list" where
  "placed unwritten pid sz c =
     (if sz < size' c then
        [c\<lparr>size' := sz, is_allocated := 1, process_id := stored_id unwritten pid\<rparr>,
         \<lparr>start_address = ucast (ucast (start_address c) + sz :: size_t),
          size' = size' c - sz, is_allocated = 0, process_id = ''FREE''\<rparr>]
      else [c\<lparr>is_allocated := 1, process_id := stored_id unwritten pid\<rparr>])"

text \<open>
  The state compactMemory leaves when its \<open>malloc\<close>, if it needs one, succeeds.
\<close>

definition compacted :: "allocator \<Rightarrow> allocator" where
  "compacted st =
     (let kept = compact_remove_free (fst (compact_move 0 (memory_head st)));
          next_free_address = snd (compact_move 0 (memory_head st))
      in st\<lparr>memory_head :=
              kept @
              (if ucast next_free_address < total_memory_size st
               then [\<lparr>start_address = next_free_address,
                      size' = total_memory_size st - ucast next_free_address,
                      is_allocated = 0, process_id = ''FREE''\<rparr>]
               else [])\<rparr>)"

subsection \<open>Example states\<close>

text \<open>
  All have capacity 100. \<open>fresh100\<close> is the allocator right after
  \<open>initializeMemory(100)\<close>; \<open>holes100\<close> is the state the commands \<open>RQ P1 30 F\<close>,
  \<open>RQ P2 20 B\<close>, \<open>RL P1\<close> lead to from there. \<open>ties100\<close> has two free blocks of
  the same size behind a larger one. In \<open>owned100\<close> process P1 holds the first block; in
  \<open>twice100\<close> it holds two blocks, the first of them between two free blocks. In
  \<open>full100\<close> every byte is allocated.
\<close>

definition fresh100 :: allocator where
  "fresh100 =
     \<lparr>memory_head =
        [\<lparr>start_address = 0, size' = 100, is_allocated = 0, process_id = ''FREE''\<rparr>],
      total_memory_size = 100\<rparr>"

definition holes100 :: allocator where
  "holes100 =
     \<lparr>memory_head =
        [\<lparr>start_address = 0, size' = 30, is_allocated = 0, process_id = ''FREE''\<rparr>,
         \<lparr>start_address = 30, size' = 20, is_allocated = 1, process_id = ''P2''\<rparr>,
         \<lparr>start_address = 50, size' = 50, is_allocated = 0, process_id = ''FREE''\<rparr>],
      total_memory_size = 100\<rparr>"

definition ties100 :: allocator where
  "ties100 =
     \<lparr>memory_head =
        [\<lparr>start_address = 0, size' = 40, is_allocated = 0, process_id = ''FREE''\<rparr>,
         \<lparr>start_address = 40, size' = 10, is_allocated = 1, process_id = ''P1''\<rparr>,
         \<lparr>start_address = 50, size' = 20, is_allocated = 0, process_id = ''FREE''\<rparr>,
         \<lparr>start_address = 70, size' = 10, is_allocated = 1, process_id = ''P2''\<rparr>,
         \<lparr>start_address = 80, size' = 20, is_allocated = 0, process_id = ''FREE''\<rparr>],
      total_memory_size = 100\<rparr>"

definition owned100 :: allocator where
  "owned100 =
     \<lparr>memory_head =
        [\<lparr>start_address = 0, size' = 30, is_allocated = 1, process_id = ''P1''\<rparr>,
         \<lparr>start_address = 30, size' = 70, is_allocated = 0, process_id = ''FREE''\<rparr>],
      total_memory_size = 100\<rparr>"

definition twice100 :: allocator where
  "twice100 =
     \<lparr>memory_head =
        [\<lparr>start_address = 0, size' = 10, is_allocated = 0, process_id = ''FREE''\<rparr>,
         \<lparr>start_address = 10, size' = 20, is_allocated = 1, process_id = ''P1''\<rparr>,
         \<lparr>start_address = 30, size' = 10, is_allocated = 0, process_id = ''FREE''\<rparr>,
         \<lparr>start_address = 40, size' = 20, is_allocated = 1, process_id = ''P1''\<rparr>,
         \<lparr>start_address = 60, size' = 40, is_allocated = 0, process_id = ''FREE''\<rparr>],
      total_memory_size = 100\<rparr>"

definition full100 :: allocator where
  "full100 =
     \<lparr>memory_head =
        [\<lparr>start_address = 0, size' = 60, is_allocated = 1, process_id = ''P1''\<rparr>,
         \<lparr>start_address = 60, size' = 40, is_allocated = 1, process_id = ''P2''\<rparr>],
      total_memory_size = 100\<rparr>"

section \<open>Properties\<close>

lemma stored_id_short: "length pid < 99 \<Longrightarrow> stored_id unwritten pid = pid"
  by (simp add: stored_id_def)

lemma select_block_other:
  "strategy \<noteq> CHR ''F'' \<Longrightarrow> strategy \<noteq> CHR ''B'' \<Longrightarrow> strategy \<noteq> CHR ''W'' \<Longrightarrow>
   select_block strategy sz mem = None"
  by (simp add: select_block_def)

text \<open>
  C9: with a strategy character other than F, B and W, requestMemory selects no block: it
  reports insufficient space and returns the allocator unchanged, whatever the process id,
  the size, the state and the outcome of malloc.
\<close>

theorem request_unknown_strategy:
  "strategy \<noteq> CHR ''F'' \<Longrightarrow> strategy \<noteq> CHR ''B'' \<Longrightarrow> strategy \<noteq> CHR ''W'' \<Longrightarrow>
   requestMemory malloc_ok unwritten pid sz strategy st = Inr (InsufficientSpace, st)"
  by (simp add: requestMemory_def select_block_other)

theorem request_unknown_strategy_witness:
  "requestMemory True [] ''P1'' 10 (CHR ''X'') holes100 = Inr (InsufficientSpace, holes100)"
  using request_unknown_strategy [of "CHR ''X''" True "[]" "''P1''" 10 holes100] by simp

subsection \<open>The three searches\<close>

lemma drop_eq_Cons_nth: "drop i mem = x # xs \<Longrightarrow> i < length mem \<and> mem ! i = x \<and> drop (Suc i) mem = xs"
  by (metis Cons_nth_drop_Suc drop_all linorder_not_less list.distinct(1) list.inject)

lemma firstFit_loop_Some:
  "firstFit_loop sz i bs = Some k \<Longrightarrow>
   \<exists>j. k = i + j \<and> j < length bs \<and> fits sz (bs ! j) \<and> (\<forall>m<j. \<not> fits sz (bs ! m))"
proof (induction bs arbitrary: i)
  case Nil
  then show ?case by simp
next
  case (Cons b bs)
  show ?case
  proof (cases "fits sz b")
    case True
    with Cons.prems have "k = i" by (simp add: fits_def)
    with True show ?thesis by (intro exI [of _ 0]) simp
  next
    case False
    with Cons.prems have "firstFit_loop sz (Suc i) bs = Some k" by (auto simp: fits_def)
    from Cons.IH [OF this] obtain j where
      j: "k = Suc i + j" "j < length bs" "fits sz (bs ! j)" "\<forall>m<j. \<not> fits sz (bs ! m)"
      by blast
    have "\<forall>m<Suc j. \<not> fits sz ((b # bs) ! m)"
      using False j(4) by (auto simp: less_Suc_eq_0_disj)
    with j show ?thesis by (intro exI [of _ "Suc j"]) simp
  qed
qed

lemma firstFit_loop_None:
  "(firstFit_loop sz i bs = None) = (\<forall>b\<in>set bs. \<not> fits sz b)"
  by (induction bs arbitrary: i) (auto simp: fits_def)

lemma firstFit_Some:
  "firstFit sz mem = Some k \<Longrightarrow> k < length mem \<and> fits sz (mem ! k) \<and> (\<forall>m<k. \<not> fits sz (mem ! m))"
  using firstFit_loop_Some [of sz 0 mem k] by (auto simp: firstFit_def)

lemma firstFit_None: "(firstFit sz mem = None) = (\<forall>b\<in>set mem. \<not> fits sz b)"
  by (simp add: firstFit_def firstFit_loop_None)

lemma best_so_far_step:
  assumes inv: "best_so_far sz mem i best"
  shows "best_so_far sz mem (Suc i)
           (if is_allocated (mem ! i) = 0 \<and> size' (mem ! i) \<ge> sz \<and>
               (case best of None \<Rightarrow> True | Some j \<Rightarrow> size' (mem ! i) < size' (mem ! j))
            then Some i else best)"
proof (cases best)
  case None
  with inv show ?thesis
    by (auto simp: best_so_far_def fits_def less_Suc_eq)
next
  case (Some j)
  with inv show ?thesis
    by (auto simp: best_so_far_def fits_def less_Suc_eq)
qed

lemma bestFit_loop_inv:
  "rest = drop i mem \<Longrightarrow> i \<le> length mem \<Longrightarrow> best_so_far sz mem i best \<Longrightarrow>
   best_so_far sz mem (length mem) (bestFit_loop sz mem best i rest)"
proof (induction rest arbitrary: i best)
  case Nil
  then have "i = length mem" by simp
  with Nil show ?case by simp
next
  case (Cons current rest)
  from Cons.prems(1) have cur: "i < length mem" "mem ! i = current" "drop (Suc i) mem = rest"
    using drop_eq_Cons_nth [of i mem current rest] by simp_all
  have "best_so_far sz mem (Suc i)
          (if is_allocated current = 0 \<and> size' current \<ge> sz \<and>
              (case best of None \<Rightarrow> True | Some j \<Rightarrow> size' current < size' (mem ! j))
           then Some i else best)"
    using best_so_far_step [OF Cons.prems(3)] unfolding cur(2) .
  from Cons.IH [OF cur(3) [symmetric] _ this] cur(1) show ?case by simp
qed

lemma bestFit_best: "best_so_far sz mem (length mem) (bestFit sz mem)"
  unfolding bestFit_def by (rule bestFit_loop_inv) (simp_all add: best_so_far_def)

lemma worst_so_far_step:
  assumes inv: "worst_so_far sz mem i worst"
  shows "worst_so_far sz mem (Suc i)
           (if is_allocated (mem ! i) = 0 \<and> size' (mem ! i) \<ge> sz \<and>
               (case worst of None \<Rightarrow> True | Some j \<Rightarrow> size' (mem ! i) > size' (mem ! j))
            then Some i else worst)"
proof (cases worst)
  case None
  with inv show ?thesis
    by (auto simp: worst_so_far_def fits_def less_Suc_eq)
next
  case (Some j)
  with inv show ?thesis
    by (auto simp: worst_so_far_def fits_def less_Suc_eq)
qed

lemma worstFit_loop_inv:
  "rest = drop i mem \<Longrightarrow> i \<le> length mem \<Longrightarrow> worst_so_far sz mem i worst \<Longrightarrow>
   worst_so_far sz mem (length mem) (worstFit_loop sz mem worst i rest)"
proof (induction rest arbitrary: i worst)
  case Nil
  then have "i = length mem" by simp
  with Nil show ?case by simp
next
  case (Cons current rest)
  from Cons.prems(1) have cur: "i < length mem" "mem ! i = current" "drop (Suc i) mem = rest"
    using drop_eq_Cons_nth [of i mem current rest] by simp_all
  have "worst_so_far sz mem (Suc i)
          (if is_allocated current = 0 \<and> size' current \<ge> sz \<and>
              (case worst of None \<Rightarrow> True | Some j \<Rightarrow> size' current > size' (mem ! j))
           then Some i else worst)"
    using worst_so_far_step [OF Cons.prems(3)] unfolding cur(2) .
  from Cons.IH [OF cur(3) [symmetric] _ this] cur(1) show ?case by simp
qed

lemma worstFit_worst: "worst_so_far sz mem (length mem) (worstFit sz mem)"
  unfolding worstFit_def by (rule worstFit_loop_inv) (simp_all add: worst_so_far_def)

lemma select_block_Some:
  assumes "select_block strategy sz mem = Some i"
  shows "i < length mem \<and> fits sz (mem ! i)"
proof -
  consider "firstFit sz mem = Some i" | "bestFit sz mem = Some i" | "worstFit sz mem = Some i"
    using assms by (auto simp: select_block_def split: if_splits)
  then show ?thesis
  proof cases
    case 1
    then show ?thesis using firstFit_Some by blast
  next
    case 2
    then show ?thesis using bestFit_best [of sz mem] by (simp add: best_so_far_def)
  next
    case 3
    then show ?thesis using worstFit_worst [of sz mem] by (simp add: worst_so_far_def)
  qed
qed

lemma select_block_None:
  assumes "\<forall>b\<in>set mem. \<not> fits sz b"
  shows "select_block strategy sz mem = None"
proof (cases "select_block strategy sz mem")
  case None
  then show ?thesis .
next
  case (Some i)
  from select_block_Some [OF this] assms show ?thesis
    using nth_mem by blast
qed

lemma select_block_finds:
  assumes strat: "strategy = CHR ''F'' \<or> strategy = CHR ''B'' \<or> strategy = CHR ''W''"
    and b: "b \<in> set mem" "fits sz b"
  shows "select_block strategy sz mem \<noteq> None"
proof -
  from b obtain k where k: "k < length mem" "fits sz (mem ! k)"
    by (auto simp: in_set_conv_nth)
  have "firstFit sz mem \<noteq> None"
    using b by (auto simp: firstFit_None)
  moreover have "bestFit sz mem \<noteq> None"
    using bestFit_best [of sz mem] k by (auto simp: best_so_far_def split: option.splits)
  moreover have "worstFit sz mem \<noteq> None"
    using worstFit_worst [of sz mem] k by (auto simp: worst_so_far_def split: option.splits)
  ultimately show ?thesis
    using strat by (auto simp: select_block_def)
qed

text \<open>
  C8: when no free block has size at least \<open>sz\<close>, requestMemory reports insufficient
  space and returns the allocator unchanged: every block keeps its start, size and label.
  This holds for F, B and W, and for any other strategy character as well.
\<close>

theorem request_insufficient_space:
  assumes "\<forall>b\<in>set (memory_head st). \<not> (is_allocated b = 0 \<and> sz \<le> size' b)"
  shows "requestMemory malloc_ok unwritten pid sz strategy st = Inr (InsufficientSpace, st)"
proof -
  have "select_block strategy sz (memory_head st) = None"
    using assms by (intro select_block_None) (simp add: fits_def)
  then show ?thesis by (simp add: requestMemory_def)
qed

theorem request_insufficient_space_witness:
  "list_all (\<lambda>b. \<not> (is_allocated b = 0 \<and> 51 \<le> size' b)) (memory_head holes100) \<and>
   requestMemory True [] ''P3'' 51 (CHR ''W'') holes100 = Inr (InsufficientSpace, holes100)"
proof -
  have h: "\<forall>b\<in>set (memory_head holes100). \<not> (is_allocated b = 0 \<and> 51 \<le> size' b)"
    by (simp add: holes100_def)
  from request_insufficient_space [OF h] h show ?thesis by (simp add: list_all_iff)
qed

subsection \<open>Tiling\<close>

lemma extent_simps [simp]:
  "extent [] = 0"
  "extent (b # bs) = unat (size' b) + extent bs"
  "extent (xs @ ys) = extent xs + extent ys"
  by (simp_all add: extent_def)

lemma partitions_append:
  "partitions a (xs @ ys) t =
     (partitions a xs (a + extent xs) \<and> partitions (a + extent xs) ys t)"
  by (induction xs arbitrary: a) (auto simp: add.assoc)

lemma partitions_end: "partitions a bs t \<Longrightarrow> t = a + extent bs"
proof (induction bs arbitrary: a)
  case Nil
  then show ?case by simp
next
  case (Cons b bs)
  from Cons.prems have "partitions (a + unat (size' b)) bs t" by simp
  from Cons.IH [OF this] show ?case by simp
qed

lemma partitions_nth_start:
  "partitions a bs t \<Longrightarrow> i < length bs \<Longrightarrow>
   unat (start_address (bs ! i)) = a + extent (take i bs)"
proof (induction bs arbitrary: a i)
  case Nil
  then show ?case by simp
next
  case (Cons b bs)
  then show ?case by (cases i) auto
qed

lemma extent_take_mono: "i \<le> j \<Longrightarrow> extent (take i bs) \<le> extent (take j bs)"
proof -
  assume "i \<le> j"
  then have "take j bs = take i bs @ take (j - i) (drop i bs)"
    by (metis le_add_diff_inverse take_add)
  then show ?thesis by simp
qed

lemma partitions_start_mono:
  assumes "partitions a bs t" "i \<le> j" "j < length bs"
  shows "start_address (bs ! i) \<le> start_address (bs ! j)"
proof -
  have "unat (start_address (bs ! i)) = a + extent (take i bs)"
    "unat (start_address (bs ! j)) = a + extent (take j bs)"
    using assms by (simp_all add: partitions_nth_start)
  with extent_take_mono [OF assms(2), of bs] show ?thesis
    by (simp add: word_le_nat_alt)
qed

text \<open>
  C5: when some free block has size at least \<open>sz\<close>, the B strategy selects a free block
  of size at least \<open>sz\<close> that is no larger than any other such block, and among the
  blocks tying with it on size it is the first of the list, which in a list that tiles the
  memory is the one at the lowest address.
\<close>

theorem bestFit_smallest_first:
  assumes ex: "\<exists>b\<in>set (memory_head st). is_allocated b = 0 \<and> sz \<le> size' b"
  shows "\<exists>i. select_block (CHR ''B'') sz (memory_head st) = Some i \<and>
           i < length (memory_head st) \<and>
           is_allocated (memory_head st ! i) = 0 \<and> sz \<le> size' (memory_head st ! i) \<and>
           (\<forall>k<length (memory_head st).
               is_allocated (memory_head st ! k) = 0 \<and> sz \<le> size' (memory_head st ! k) \<longrightarrow>
               size' (memory_head st ! i) \<le> size' (memory_head st ! k)) \<and>
           (\<forall>k<length (memory_head st).
               is_allocated (memory_head st ! k) = 0 \<and> sz \<le> size' (memory_head st ! k) \<and>
               size' (memory_head st ! k) = size' (memory_head st ! i) \<longrightarrow>
               i \<le> k \<and>
               (partitions 0 (memory_head st) (unat (total_memory_size st)) \<longrightarrow>
                start_address (memory_head st ! i) \<le> start_address (memory_head st ! k)))"
proof -
  let ?mem = "memory_head st"
  from ex obtain b where "b \<in> set ?mem" "fits sz b"
    by (auto simp: fits_def)
  then have "select_block (CHR ''B'') sz ?mem \<noteq> None"
    by (intro select_block_finds) simp_all
  then obtain i where i: "bestFit sz ?mem = Some i"
    by (auto simp: select_block_def)
  with bestFit_best [of sz ?mem] have
    best: "i < length ?mem" "fits sz (?mem ! i)"
      "\<forall>k<length ?mem. fits sz (?mem ! k) \<longrightarrow> size' (?mem ! i) \<le> size' (?mem ! k)"
      "\<forall>k<i. fits sz (?mem ! k) \<longrightarrow> size' (?mem ! i) < size' (?mem ! k)"
    by (simp_all add: best_so_far_def)
  have first: "i \<le> k" if "fits sz (?mem ! k)" "size' (?mem ! k) = size' (?mem ! i)" for k
  proof (rule ccontr)
    assume "\<not> i \<le> k"
    then have "k < i" by simp
    with best(4) that show False by auto
  qed
  have addr: "start_address (?mem ! i) \<le> start_address (?mem ! k)"
    if "k < length ?mem" "fits sz (?mem ! k)" "size' (?mem ! k) = size' (?mem ! i)"
      "partitions 0 ?mem (unat (total_memory_size st))" for k
    using partitions_start_mono [OF that(4) first [OF that(2,3)] that(1)] .
  show ?thesis
    using i best(1,2,3) first addr
    by (intro exI [of _ i]) (auto simp: select_block_def fits_def)
qed


theorem bestFit_smallest_first_witness:
  "(\<exists>b\<in>set (memory_head ties100). is_allocated b = 0 \<and> 15 \<le> size' b) \<and>
   select_block (CHR ''B'') 15 (memory_head ties100) = Some 2 \<and>
   size' (memory_head ties100 ! 2) = size' (memory_head ties100 ! 4)"
proof -
  have h: "\<exists>b\<in>set (memory_head ties100). is_allocated b = 0 \<and> 15 \<le> size' b"
    by (simp add: ties100_def)
  have e: "select_block (CHR ''B'') 15 (memory_head ties100) = Some 2"
    by (simp add: ties100_def select_block_def bestFit_def)
  from bestFit_smallest_first [OF h] h e show ?thesis
    by (simp add: ties100_def)
qed

subsection \<open>Arithmetic of starts and sizes\<close>

lemma unat_advance:
  fixes a :: uint and s :: size_t
  assumes "unat a + unat s < 2 ^ 32"
  shows "unat (ucast (ucast a + s :: size_t) :: uint) = unat a + unat s"
proof -
  have "unat a < 2 ^ 64"
    using unsigned_less [of a, where 'a = nat] by simp
  then have up: "unat (ucast a :: size_t) = unat a"
    by (simp add: unsigned_ucast_eq take_bit_nat_eq_self)
  have "unat a + unat s < 2 ^ 64"
    using assms by simp
  then have "unat (ucast a + s :: size_t) = unat a + unat s"
    using up unat_add_lem [of "ucast a :: size_t" s] by simp
  then show ?thesis
    using assms by (simp add: unsigned_ucast_eq take_bit_nat_eq_self)
qed

lemma advance_zero:
  fixes a :: uint
  shows "(ucast (ucast a :: size_t) :: uint) = a"
  by (simp add: ucast_up_ucast_id is_up)

lemma MAX_MEMORY_unat: "unat MAX_MEMORY = 4194304"
  by (simp add: MAX_MEMORY_def)

lemma valid_bound: "valid st \<Longrightarrow> unat (total_memory_size st) < 2 ^ 32"
proof -
  assume "valid st"
  then have "unat (total_memory_size st) \<le> unat MAX_MEMORY"
    by (simp add: valid_def word_le_nat_alt)
  then show ?thesis by (simp add: MAX_MEMORY_unat)
qed

lemma partitions_nth_end:
  assumes "partitions a bs t" "i < length bs"
  shows "unat (start_address (bs ! i)) + unat (size' (bs ! i)) \<le> t"
proof -
  have bs: "bs = take i bs @ bs ! i # drop (Suc i) bs"
    using assms(2) by (rule id_take_nth_drop)
  have "t = a + extent bs" using assms(1) by (rule partitions_end)
  also have "extent bs = extent (take i bs) + (unat (size' (bs ! i)) + extent (drop (Suc i) bs))"
    by (subst bs) simp
  finally show ?thesis
    using partitions_nth_start [OF assms] by simp
qed

subsection \<open>requestMemory\<close>

lemma positive_sizes_nth:
  "positive_sizes bs \<Longrightarrow> i < length bs \<Longrightarrow> 0 < size' (bs ! i)"
  by (simp add: positive_sizes_def list_all_length)

text \<open>
  C10: a request of size 0 under F, B or W, in a state with a free block and only positive
  sizes, still selects a free block and splits it: the selected block becomes an allocated
  block of size 0, and a free block with the selected block's start and size follows it.
  Invariant 3 held before the call and fails after it, so it needs the positive size.
\<close>

theorem request_zero_splits:
  assumes strat: "strategy = CHR ''F'' \<or> strategy = CHR ''B'' \<or> strategy = CHR ''W''"
    and free: "\<exists>b\<in>set (memory_head st). is_allocated b = 0"
    and pos: "positive_sizes (memory_head st)"
  shows "\<exists>i st'. select_block strategy 0 (memory_head st) = Some i \<and>
           i < length (memory_head st) \<and>
           is_allocated (memory_head st ! i) = 0 \<and>
           requestMemory True unwritten pid 0 strategy st = Inr (Allocated, st') \<and>
           st' = st\<lparr>memory_head :=
                  take i (memory_head st) @
                  [(memory_head st ! i)\<lparr>size' := 0, is_allocated := 1, process_id := stored_id unwritten pid\<rparr>,
                   \<lparr>start_address = start_address (memory_head st ! i),
                    size' = size' (memory_head st ! i),
                    is_allocated = 0, process_id = ''FREE''\<rparr>] @
                  drop (Suc i) (memory_head st)\<rparr> \<and>
           \<not> positive_sizes (memory_head st')"
proof -
  let ?mem = "memory_head st"
  from free obtain b where "b \<in> set ?mem" "fits 0 b"
    by (auto simp: fits_def)
  with strat have "select_block strategy 0 ?mem \<noteq> None"
    by (intro select_block_finds)
  then obtain i where i: "select_block strategy 0 ?mem = Some i"
    by blast
  from select_block_Some [OF i] have len: "i < length ?mem" and fr: "is_allocated (?mem ! i) = 0"
    by (simp_all add: fits_def)
  from positive_sizes_nth [OF pos len] have gt: "0 < size' (?mem ! i)" .
  have req: "requestMemory True unwritten pid 0 strategy st =
      Inr (Allocated, st\<lparr>memory_head :=
                  take i ?mem @
                  [(?mem ! i)\<lparr>size' := 0, is_allocated := 1, process_id := stored_id unwritten pid\<rparr>,
                   \<lparr>start_address = start_address (?mem ! i),
                    size' = size' (?mem ! i),
                    is_allocated = 0, process_id = ''FREE''\<rparr>] @
                  drop (Suc i) ?mem\<rparr>)"
    using i gt by (simp add: requestMemory_def Let_def advance_zero)
  show ?thesis
    using i len fr req by (simp add: positive_sizes_def)
qed

theorem request_zero_splits_witness:
  "(\<exists>b\<in>set (memory_head holes100). is_allocated b = 0) \<and>
   positive_sizes (memory_head holes100) \<and>
   select_block (CHR ''W'') 0 (memory_head holes100) = Some 2 \<and>
   requestMemory True [] ''P9'' 0 (CHR ''W'') holes100 =
     Inr (Allocated,
          \<lparr>memory_head =
             [\<lparr>start_address = 0, size' = 30, is_allocated = 0, process_id = ''FREE''\<rparr>,
              \<lparr>start_address = 30, size' = 20, is_allocated = 1, process_id = ''P2''\<rparr>,
              \<lparr>start_address = 50, size' = 0, is_allocated = 1, process_id = ''P9''\<rparr>,
              \<lparr>start_address = 50, size' = 50, is_allocated = 0, process_id = ''FREE''\<rparr>],
           total_memory_size = 100\<rparr>)"
proof -
  have h1: "\<exists>b\<in>set (memory_head holes100). is_allocated b = 0"
    by (simp add: holes100_def)
  have h2: "positive_sizes (memory_head holes100)"
    by (simp add: holes100_def positive_sizes_def)
  have sel: "select_block (CHR ''W'') 0 (memory_head holes100) = Some 2"
    by (simp add: holes100_def select_block_def worstFit_def)
  from request_zero_splits [of "CHR ''W''" holes100 "[]" "''P9''", OF _ h1 h2] sel
  have "requestMemory True [] ''P9'' 0 (CHR ''W'') holes100 =
     Inr (Allocated,
          \<lparr>memory_head =
             [\<lparr>start_address = 0, size' = 30, is_allocated = 0, process_id = ''FREE''\<rparr>,
              \<lparr>start_address = 30, size' = 20, is_allocated = 1, process_id = ''P2''\<rparr>,
              \<lparr>start_address = 50, size' = 0, is_allocated = 1, process_id = ''P9''\<rparr>,
              \<lparr>start_address = 50, size' = 50, is_allocated = 0, process_id = ''FREE''\<rparr>],
           total_memory_size = 100\<rparr>)"
    by (simp add: holes100_def stored_id_def)
  with h1 h2 sel show ?thesis by blast
qed

text \<open>
  C4, amended: a request that succeeds in a valid state, for an id of fewer than 99
  characters, has selected a free block of size at least \<open>sz\<close>. When the sizes are equal
  that block is relabelled with the id in place; otherwise it is shrunk to \<open>sz\<close> and
  relabelled with the id, and a free block starting at its start plus \<open>sz\<close> and holding
  the rest of its size follows it. The blocks before and behind are those of the list before
  the call.
\<close>

theorem request_split_or_relabel:
  assumes v: "valid st" and short: "length pid < 99"
    and req: "requestMemory malloc_ok unwritten pid sz strategy st = Inr (Allocated, st')"
  shows "\<exists>i. select_block strategy sz (memory_head st) = Some i \<and>
           i < length (memory_head st) \<and>
           owner_of (memory_head st ! i) = Free \<and> sz \<le> size' (memory_head st ! i) \<and>
           total_memory_size st' = total_memory_size st \<and>
           (if size' (memory_head st ! i) = sz then
              memory_head st' =
                take i (memory_head st) @
                [(memory_head st ! i)\<lparr>is_allocated := 1, process_id := pid\<rparr>] @
                drop (Suc i) (memory_head st)
            else
              \<exists>remainder.
                memory_head st' =
                  take i (memory_head st) @
                  [(memory_head st ! i)\<lparr>size' := sz, is_allocated := 1, process_id := pid\<rparr>,
                   remainder] @
                  drop (Suc i) (memory_head st) \<and>
                owner_of remainder = Free \<and>
                unat (start_address remainder) =
                  unat (start_address (memory_head st ! i)) + unat sz \<and>
                unat (size' remainder) = unat (size' (memory_head st ! i)) - unat sz \<and>
                0 < unat (size' remainder))"
proof -
  let ?mem = "memory_head st"
  from req obtain i where i: "select_block strategy sz ?mem = Some i"
    by (auto simp: requestMemory_def Let_def split: option.splits)
  from select_block_Some [OF i] have len: "i < length ?mem" and fit: "fits sz (?mem ! i)"
    by simp_all
  let ?c = "?mem ! i"
  from fit have fr: "owner_of ?c = Free" and le: "sz \<le> size' ?c"
    by (simp_all add: fits_def owner_of_def)
  have part: "partitions 0 ?mem (unat (total_memory_size st))"
    using v by (simp add: valid_def invariants_def)
  have inside: "unat (start_address ?c) + unat (size' ?c) < 2 ^ 32"
    using partitions_nth_end [OF part len] valid_bound [OF v] by simp
  have "unat sz \<le> unat (size' ?c)"
    using le by (simp add: word_le_nat_alt)
  with inside have nowrap: "unat (start_address ?c) + unat sz < 2 ^ 32"
    by simp
  show ?thesis
  proof (cases "size' ?c = sz")
    case True
    with req i have "memory_head st' = ?mem[i := ?c\<lparr>is_allocated := 1, process_id := stored_id unwritten pid\<rparr>]"
      and "total_memory_size st' = total_memory_size st"
      by (auto simp: requestMemory_def Let_def)
    with True i len fr le stored_id_short [OF short, of unwritten] show ?thesis
      by (intro exI [of _ i]) (simp add: upd_conv_take_nth_drop)
  next
    case False
    with le have lt: "sz < size' ?c" by simp
    let ?rem = "\<lparr>start_address = ucast (ucast (start_address ?c) + sz :: size_t),
                  size' = size' ?c - sz, is_allocated = 0, process_id = ''FREE''\<rparr>"
    from req i lt have ok: malloc_ok
      by (auto simp: requestMemory_def Let_def split: if_splits)
    with req i lt have st': "memory_head st' =
        take i ?mem @ [?c\<lparr>size' := sz, is_allocated := 1, process_id := stored_id unwritten pid\<rparr>, ?rem] @
        drop (Suc i) ?mem"
      and tot: "total_memory_size st' = total_memory_size st"
      by (auto simp: requestMemory_def Let_def)
    have rsize: "unat (size' ?rem) = unat (size' ?c) - unat sz"
      using le by (simp add: unat_sub)
    have "unat sz < unat (size' ?c)"
      using lt by (simp add: word_less_nat_alt)
    with rsize have rpos: "0 < unat (size' ?rem)" by simp
    have rstart: "unat (start_address ?rem) = unat (start_address ?c) + unat sz"
      using unat_advance [OF nowrap] by simp
    have "\<exists>remainder.
            memory_head st' =
              take i ?mem @
              [?c\<lparr>size' := sz, is_allocated := 1, process_id := pid\<rparr>, remainder] @
              drop (Suc i) ?mem \<and>
            owner_of remainder = Free \<and>
            unat (start_address remainder) = unat (start_address ?c) + unat sz \<and>
            unat (size' remainder) = unat (size' ?c) - unat sz \<and>
            0 < unat (size' remainder)"
      using st' rsize rpos rstart stored_id_short [OF short, of unwritten]
      by (intro exI [of _ ?rem]) (simp add: owner_of_def)
    with False i len fr le tot show ?thesis
      by (intro exI [of _ i]) simp
  qed
qed


theorem request_split_or_relabel_witness:
  "valid holes100 \<and> length ''P3'' < 99 \<and>
   requestMemory True [] ''P3'' 20 (CHR ''F'') holes100 =
     Inr (Allocated,
          \<lparr>memory_head =
             [\<lparr>start_address = 0, size' = 20, is_allocated = 1, process_id = ''P3''\<rparr>,
              \<lparr>start_address = 20, size' = 10, is_allocated = 0, process_id = ''FREE''\<rparr>,
              \<lparr>start_address = 30, size' = 20, is_allocated = 1, process_id = ''P2''\<rparr>,
              \<lparr>start_address = 50, size' = 50, is_allocated = 0, process_id = ''FREE''\<rparr>],
           total_memory_size = 100\<rparr>) \<and>
   select_block (CHR ''F'') 20 (memory_head holes100) = Some 0"
proof -
  let ?st' = "\<lparr>memory_head =
             [\<lparr>start_address = 0, size' = 20, is_allocated = 1, process_id = ''P3''\<rparr>,
              \<lparr>start_address = 20, size' = 10, is_allocated = 0, process_id = ''FREE''\<rparr>,
              \<lparr>start_address = 30, size' = 20, is_allocated = 1, process_id = ''P2''\<rparr>,
              \<lparr>start_address = 50, size' = 50, is_allocated = 0, process_id = ''FREE''\<rparr>],
           total_memory_size = 100\<rparr>"
  have v: "valid holes100"
    by (simp add: valid_def invariants_def positive_sizes_def holes100_def MAX_MEMORY_def)
  have s: "length ''P3'' < 99" by simp
  have r: "requestMemory True [] ''P3'' 20 (CHR ''F'') holes100 = Inr (Allocated, ?st')"
    by (simp add: requestMemory_def select_block_def firstFit_def holes100_def stored_id_def)
  from request_split_or_relabel [OF v s r]
  have "select_block (CHR ''F'') 20 (memory_head holes100) = Some 0"
    by (auto simp: holes100_def select_block_def firstFit_def)
  with v s r show ?thesis by blast
qed

text \<open>
  C4 as stated fails for an id that the id buffer does not hold: of 120 characters only the
  first 99 are stored, so the block is not labelled with the process id, and a release with
  that id does not find it. Here the byte behind the 99 characters reads as 0.
\<close>

theorem request_split_or_relabel_counterexample:
  "valid fresh100 \<and>
   requestMemory True [] (replicate 120 (CHR ''a'')) 20 (CHR ''F'') fresh100 =
     Inr (Allocated,
          \<lparr>memory_head =
             [\<lparr>start_address = 0, size' = 20, is_allocated = 1,
               process_id = replicate 99 (CHR ''a'')\<rparr>,
              \<lparr>start_address = 20, size' = 80, is_allocated = 0, process_id = ''FREE''\<rparr>],
           total_memory_size = 100\<rparr>) \<and>
   owner_of \<lparr>start_address = 0, size' = 20, is_allocated = 1,
              process_id = replicate 99 (CHR ''a'')\<rparr> \<noteq>
     Owned (replicate 120 (CHR ''a'')) \<and>
   fst (releaseMemory (replicate 120 (CHR ''a''))
     \<lparr>memory_head =
        [\<lparr>start_address = 0, size' = 20, is_allocated = 1,
          process_id = replicate 99 (CHR ''a'')\<rparr>,
         \<lparr>start_address = 20, size' = 80, is_allocated = 0, process_id = ''FREE''\<rparr>],
      total_memory_size = 100\<rparr>) = NotFound"
proof (intro conjI)
  show "valid fresh100"
    by (simp add: valid_def invariants_def positive_sizes_def fresh100_def MAX_MEMORY_def)
  show "requestMemory True [] (replicate 120 (CHR ''a'')) 20 (CHR ''F'') fresh100 =
     Inr (Allocated,
          \<lparr>memory_head =
             [\<lparr>start_address = 0, size' = 20, is_allocated = 1,
               process_id = replicate 99 (CHR ''a'')\<rparr>,
              \<lparr>start_address = 20, size' = 80, is_allocated = 0, process_id = ''FREE''\<rparr>],
           total_memory_size = 100\<rparr>)"
    by (simp add: requestMemory_def select_block_def firstFit_def fresh100_def stored_id_def)
  show "owner_of \<lparr>start_address = 0, size' = 20, is_allocated = 1,
              process_id = replicate 99 (CHR ''a'')\<rparr> \<noteq>
     Owned (replicate 120 (CHR ''a''))"
    by (simp add: owner_of_def)
  show "fst (releaseMemory (replicate 120 (CHR ''a''))
     \<lparr>memory_head =
        [\<lparr>start_address = 0, size' = 20, is_allocated = 1,
          process_id = replicate 99 (CHR ''a'')\<rparr>,
         \<lparr>start_address = 20, size' = 80, is_allocated = 0, process_id = ''FREE''\<rparr>],
      total_memory_size = 100\<rparr>) = NotFound"
    by (simp add: releaseMemory_def)
qed

subsection \<open>releaseMemory\<close>

lemma release_loop_skip:
  "\<forall>b\<in>set before. \<not> owned_by pid b \<Longrightarrow>
   release_loop pid visited (before @ rest) = release_loop pid (rev before @ visited) rest"
  by (induction before arbitrary: visited) (auto simp: owned_by_def)

lemma release_loop_None:
  "\<forall>b\<in>set mem. \<not> owned_by pid b \<Longrightarrow> release_loop pid visited mem = None"
  using release_loop_skip [of mem pid visited "[]"] by simp

lemma release_loop_found:
  assumes nb: "\<forall>b\<in>set before. \<not> owned_by pid b" and own: "owned_by pid cur"
  shows "release_loop pid [] (before @ cur # after) =
     Some (let freed = cur\<lparr>is_allocated := 0, process_id := ''FREE''\<rparr>;
               (kept_before, merged) =
                 (if before \<noteq> [] \<and> is_allocated (last before) = 0
                  then (butlast before,
                        (last before)\<lparr>size' := size' (last before) + size' freed\<rparr>)
                  else (before, freed));
               (merged, kept_after) =
                 (if after \<noteq> [] \<and> is_allocated (hd after) = 0
                  then (merged\<lparr>size' := size' merged + size' (hd after)\<rparr>, tl after)
                  else (merged, after))
           in kept_before @ [merged] @ kept_after)"
proof -
  have step: "release_loop pid [] (before @ cur # after) =
      release_loop pid (rev before) (cur # after)"
    using release_loop_skip [OF nb, of "[]" "cur # after"] by simp
  show ?thesis
  proof (cases before rule: rev_cases)
    case Nil
    with step own show ?thesis
      by (cases after) (auto simp: owned_by_def Let_def)
  next
    case (snoc init prev)
    with step own show ?thesis
      by (cases after) (auto simp: owned_by_def Let_def)
  qed
qed

text \<open>
  C3: when no block is owned by \<open>pid\<close>, releaseMemory reports NotFound and changes
  nothing. Otherwise, with \<open>cur\<close> the first block owned by \<open>pid\<close>, the blocks
  \<open>before\<close> it and the blocks \<open>after\<close> it: \<open>cur\<close> is relabelled free; when the last
  block of \<open>before\<close> is free, that block absorbs it; when the first block of \<open>after\<close>
  is free, it is absorbed in turn. One block at most goes on each side, and every other block,
  a later block of \<open>pid\<close> included, stays as it was.
\<close>

theorem release_first_owned:
  "(list_all (\<lambda>b. \<not> owned_by pid b) (memory_head st) \<longrightarrow>
      releaseMemory pid st = (NotFound, st)) \<and>
   (memory_head st = before @ cur # after \<and>
    list_all (\<lambda>b. \<not> owned_by pid b) before \<and> owned_by pid cur \<longrightarrow>
      releaseMemory pid st =
        (Released,
         st\<lparr>memory_head :=
              (let freed = cur\<lparr>is_allocated := 0, process_id := ''FREE''\<rparr>;
                   (kept_before, merged) =
                     (if before \<noteq> [] \<and> is_allocated (last before) = 0
                      then (butlast before,
                            (last before)\<lparr>size' := size' (last before) + size' freed\<rparr>)
                      else (before, freed));
                   (merged, kept_after) =
                     (if after \<noteq> [] \<and> is_allocated (hd after) = 0
                      then (merged\<lparr>size' := size' merged + size' (hd after)\<rparr>, tl after)
                      else (merged, after))
               in kept_before @ [merged] @ kept_after)\<rparr>))"
proof (intro conjI impI)
  assume "list_all (\<lambda>b. \<not> owned_by pid b) (memory_head st)"
  then have "release_loop pid [] (memory_head st) = None"
    by (intro release_loop_None) (simp add: list_all_iff)
  then show "releaseMemory pid st = (NotFound, st)"
    by (simp add: releaseMemory_def)
next
  assume a: "memory_head st = before @ cur # after \<and>
    list_all (\<lambda>b. \<not> owned_by pid b) before \<and> owned_by pid cur"
  then have nb: "\<forall>b\<in>set before. \<not> owned_by pid b" and own: "owned_by pid cur"
    by (simp_all add: list_all_iff)
  from a release_loop_found [OF nb own, of after]
  show "releaseMemory pid st =
        (Released,
         st\<lparr>memory_head :=
              (let freed = cur\<lparr>is_allocated := 0, process_id := ''FREE''\<rparr>;
                   (kept_before, merged) =
                     (if before \<noteq> [] \<and> is_allocated (last before) = 0
                      then (butlast before,
                            (last before)\<lparr>size' := size' (last before) + size' freed\<rparr>)
                      else (before, freed));
                   (merged, kept_after) =
                     (if after \<noteq> [] \<and> is_allocated (hd after) = 0
                      then (merged\<lparr>size' := size' merged + size' (hd after)\<rparr>, tl after)
                      else (merged, after))
               in kept_before @ [merged] @ kept_after)\<rparr>)"
    by (simp add: releaseMemory_def)
qed

theorem release_first_owned_witness:
  "releaseMemory ''P1'' twice100 =
     (Released,
      \<lparr>memory_head =
         [\<lparr>start_address = 0, size' = 40, is_allocated = 0, process_id = ''FREE''\<rparr>,
          \<lparr>start_address = 40, size' = 20, is_allocated = 1, process_id = ''P1''\<rparr>,
          \<lparr>start_address = 60, size' = 40, is_allocated = 0, process_id = ''FREE''\<rparr>],
       total_memory_size = 100\<rparr>) \<and>
   releaseMemory ''P7'' twice100 = (NotFound, twice100)"
proof -
  let ?b0 = "\<lparr>start_address = 0, size' = 10, is_allocated = 0, process_id = ''FREE''\<rparr> :: MemoryBlock"
  let ?b1 = "\<lparr>start_address = 10, size' = 20, is_allocated = 1, process_id = ''P1''\<rparr> :: MemoryBlock"
  let ?rest = "[\<lparr>start_address = 30, size' = 10, is_allocated = 0, process_id = ''FREE''\<rparr>,
         \<lparr>start_address = 40, size' = 20, is_allocated = 1, process_id = ''P1''\<rparr>,
         \<lparr>start_address = 60, size' = 40, is_allocated = 0, process_id = ''FREE''\<rparr>] :: MemoryBlock list"
  have found: "memory_head twice100 = [?b0] @ ?b1 # ?rest \<and>
      list_all (\<lambda>b. \<not> owned_by ''P1'' b) [?b0] \<and> owned_by ''P1'' ?b1"
    by (simp add: twice100_def owned_by_def)
  have none: "list_all (\<lambda>b. \<not> owned_by ''P7'' b) (memory_head twice100)"
    by (simp add: twice100_def owned_by_def)
  from release_first_owned [of "''P1''" twice100 "[?b0]" ?b1 ?rest] found
  have 1: "releaseMemory ''P1'' twice100 =
     (Released,
      \<lparr>memory_head =
         [\<lparr>start_address = 0, size' = 40, is_allocated = 0, process_id = ''FREE''\<rparr>,
          \<lparr>start_address = 40, size' = 20, is_allocated = 1, process_id = ''P1''\<rparr>,
          \<lparr>start_address = 60, size' = 40, is_allocated = 0, process_id = ''FREE''\<rparr>],
       total_memory_size = 100\<rparr>)"
    by (simp add: twice100_def)
  from release_first_owned [of "''P7''" twice100] none
  have 2: "releaseMemory ''P7'' twice100 = (NotFound, twice100)"
    by simp
  from 1 2 show ?thesis by simp
qed

subsection \<open>A request followed by a release\<close>

lemma requestMemory_Allocated:
  assumes "requestMemory malloc_ok unwritten pid sz strategy st = Inr (Allocated, st')"
  shows "\<exists>i. select_block strategy sz (memory_head st) = Some i \<and>
           i < length (memory_head st) \<and> fits sz (memory_head st ! i) \<and>
           st' = st\<lparr>memory_head :=
                  take i (memory_head st) @ placed unwritten pid sz (memory_head st ! i) @
                  drop (Suc i) (memory_head st)\<rparr>"
proof -
  let ?mem = "memory_head st"
  from assms obtain i where i: "select_block strategy sz ?mem = Some i"
    by (auto simp: requestMemory_def Let_def split: option.splits)
  from select_block_Some [OF i] have len: "i < length ?mem" and fit: "fits sz (?mem ! i)"
    by simp_all
  from assms i have "st' = st\<lparr>memory_head := take i ?mem @ placed unwritten pid sz (?mem ! i) @ drop (Suc i) ?mem\<rparr>"
    using len
    by (auto simp: requestMemory_def Let_def placed_def upd_conv_take_nth_drop split: if_splits)
  with i len fit show ?thesis by blast
qed

lemma requestMemory_cases:
  "requestMemory malloc_ok unwritten pid sz strategy st = Inl EXIT_FAILURE \<and> \<not> malloc_ok \<or>
   requestMemory malloc_ok unwritten pid sz strategy st = Inr (InsufficientSpace, st) \<or>
   (\<exists>st'. requestMemory malloc_ok unwritten pid sz strategy st = Inr (Allocated, st'))"
  by (cases malloc_ok) (auto simp: requestMemory_def Let_def split: option.splits)

lemma no_adjacent_free_Cons:
  "no_adjacent_free (b # bs) =
     ((bs = [] \<or> is_allocated b \<noteq> 0 \<or> is_allocated (hd bs) \<noteq> 0) \<and> no_adjacent_free bs)"
  by (cases bs) auto

lemma no_adjacent_free_append:
  "no_adjacent_free (xs @ ys) =
     (no_adjacent_free xs \<and> no_adjacent_free ys \<and>
      (xs = [] \<or> ys = [] \<or> is_allocated (last xs) \<noteq> 0 \<or> is_allocated (hd ys) \<noteq> 0))"
proof (induction xs)
  case Nil
  then show ?case by simp
next
  case (Cons x xs)
  then show ?case
    by (cases xs) (auto simp: no_adjacent_free_Cons)
qed

lemma release_after_placed:
  assumes pre: "list_all (\<lambda>b. \<not> owned_by pid b) pre"
    and left: "pre = [] \<or> is_allocated (last pre) \<noteq> 0"
    and right: "post = [] \<or> is_allocated (hd post) \<noteq> 0"
    and c: "is_allocated c = 0" "sz \<le> size' c"
    and short: "length pid < 99"
  shows "release_loop pid [] (pre @ placed unwritten pid sz c @ post) =
           Some (pre @ [c\<lparr>process_id := ''FREE''\<rparr>] @ post)"
proof -
  have nb: "\<forall>b\<in>set pre. \<not> owned_by pid b"
    using pre by (simp add: list_all_iff)
  show ?thesis
  proof (cases "sz < size' c")
    case True
    let ?o = "c\<lparr>size' := sz, is_allocated := 1, process_id := stored_id unwritten pid\<rparr>"
    let ?r = "\<lparr>start_address = ucast (ucast (start_address c) + sz :: size_t),
          size' = size' c - sz, is_allocated = 0, process_id = ''FREE''\<rparr>"
    have own: "owned_by pid ?o"
      using short by (simp add: owned_by_def stored_id_short)
    have "release_loop pid [] (pre @ ?o # (?r # post)) =
            Some (pre @ [c\<lparr>process_id := ''FREE''\<rparr>] @ post)"
      unfolding release_loop_found [OF nb own]
      using left c by (auto simp: Let_def)
    with True show ?thesis by (simp add: placed_def)
  next
    case False
    let ?o = "c\<lparr>is_allocated := 1, process_id := stored_id unwritten pid\<rparr>"
    have own: "owned_by pid ?o"
      using short by (simp add: owned_by_def stored_id_short)
    have "release_loop pid [] (pre @ ?o # post) =
            Some (pre @ [c\<lparr>process_id := ''FREE''\<rparr>] @ post)"
      unfolding release_loop_found [OF nb own]
      using left right c by (auto simp: Let_def)
    with False show ?thesis by (simp add: placed_def)
  qed
qed

text \<open>
  C6, amended: in a valid state, when the process id fits the id buffer and owns no block in
  front of the block the request selects, a successful request followed at once by a release
  of the same id gives back the layout from before the request: the same starts, sizes and
  labels. The capacity is unchanged as well.
\<close>

theorem request_then_release:
  assumes v: "valid st" and short: "length pid < 99"
    and sel: "select_block strategy sz (memory_head st) = Some i"
    and earlier: "list_all (\<lambda>b. \<not> owned_by pid b) (take i (memory_head st))"
    and req: "requestMemory malloc_ok unwritten pid sz strategy st = Inr (Allocated, st')"
  shows "\<exists>st''. releaseMemory pid st' = (Released, st'') \<and> layout st'' = layout st \<and>
           total_memory_size st'' = total_memory_size st"
proof -
  let ?mem = "memory_head st"
  let ?pre = "take i ?mem" and ?c = "?mem ! i" and ?post = "drop (Suc i) ?mem"
  from requestMemory_Allocated [OF req] sel
  have len: "i < length ?mem" and fit: "fits sz ?c"
    and st': "st' = st\<lparr>memory_head := ?pre @ placed unwritten pid sz ?c @ ?post\<rparr>"
    by auto
  have mem: "?mem = ?pre @ ?c # ?post"
    using len by (rule id_take_nth_drop)
  from fit have c: "is_allocated ?c = 0" "sz \<le> size' ?c"
    by (simp_all add: fits_def)
  have "no_adjacent_free (?pre @ ?c # ?post)"
    using v mem by (simp add: valid_def invariants_def)
  then have left: "?pre = [] \<or> is_allocated (last ?pre) \<noteq> 0"
    and right: "?post = [] \<or> is_allocated (hd ?post) \<noteq> 0"
    using c(1) by (auto simp: no_adjacent_free_append no_adjacent_free_Cons)
  have rel: "release_loop pid [] (memory_head st') = Some (?pre @ [?c\<lparr>process_id := ''FREE''\<rparr>] @ ?post)"
    unfolding st' using release_after_placed [OF earlier left right c short] by simp
  let ?st'' = "st'\<lparr>memory_head := ?pre @ [?c\<lparr>process_id := ''FREE''\<rparr>] @ ?post\<rparr>"
  have r: "releaseMemory pid st' = (Released, ?st'')"
    using rel by (simp add: releaseMemory_def)
  have "layout ?st'' = map (\<lambda>b. (unat (start_address b), unat (size' b), owner_of b)) (?pre @ ?c # ?post)"
    using c(1) by (simp add: layout_def owner_of_def)
  also have "\<dots> = layout st"
    unfolding layout_def using mem by simp
  finally have "layout ?st'' = layout st" .
  moreover have "total_memory_size ?st'' = total_memory_size st"
    by (simp add: st')
  ultimately show ?thesis using r by blast
qed

theorem request_then_release_witness:
  "valid holes100 \<and> length ''P3'' < 99 \<and>
   select_block (CHR ''B'') 20 (memory_head holes100) = Some 0 \<and>
   requestMemory True [] ''P3'' 20 (CHR ''B'') holes100 =
     Inr (Allocated,
          \<lparr>memory_head =
             [\<lparr>start_address = 0, size' = 20, is_allocated = 1, process_id = ''P3''\<rparr>,
              \<lparr>start_address = 20, size' = 10, is_allocated = 0, process_id = ''FREE''\<rparr>,
              \<lparr>start_address = 30, size' = 20, is_allocated = 1, process_id = ''P2''\<rparr>,
              \<lparr>start_address = 50, size' = 50, is_allocated = 0, process_id = ''FREE''\<rparr>],
           total_memory_size = 100\<rparr>) \<and>
   layout (snd (releaseMemory ''P3''
     \<lparr>memory_head =
             [\<lparr>start_address = 0, size' = 20, is_allocated = 1, process_id = ''P3''\<rparr>,
              \<lparr>start_address = 20, size' = 10, is_allocated = 0, process_id = ''FREE''\<rparr>,
              \<lparr>start_address = 30, size' = 20, is_allocated = 1, process_id = ''P2''\<rparr>,
              \<lparr>start_address = 50, size' = 50, is_allocated = 0, process_id = ''FREE''\<rparr>],
           total_memory_size = 100\<rparr>)) = layout holes100"
proof -
  let ?st' = "\<lparr>memory_head =
             [\<lparr>start_address = 0, size' = 20, is_allocated = 1, process_id = ''P3''\<rparr>,
              \<lparr>start_address = 20, size' = 10, is_allocated = 0, process_id = ''FREE''\<rparr>,
              \<lparr>start_address = 30, size' = 20, is_allocated = 1, process_id = ''P2''\<rparr>,
              \<lparr>start_address = 50, size' = 50, is_allocated = 0, process_id = ''FREE''\<rparr>],
           total_memory_size = 100\<rparr>"
  have v: "valid holes100"
    by (simp add: valid_def invariants_def positive_sizes_def holes100_def MAX_MEMORY_def)
  have s: "length ''P3'' < 99" by simp
  have sel: "select_block (CHR ''B'') 20 (memory_head holes100) = Some 0"
    by (simp add: select_block_def bestFit_def holes100_def)
  have e: "list_all (\<lambda>b. \<not> owned_by ''P3'' b) (take 0 (memory_head holes100))"
    by simp
  have r: "requestMemory True [] ''P3'' 20 (CHR ''B'') holes100 = Inr (Allocated, ?st')"
    by (simp add: requestMemory_def select_block_def bestFit_def holes100_def stored_id_def)
  from request_then_release [OF v s sel e r]
  have "layout (snd (releaseMemory ''P3'' ?st')) = layout holes100"
    by auto
  with v s sel r show ?thesis by blast
qed

text \<open>
  C6 as stated fails when the process already owns a block at a lower address: the release
  frees that block, the first one found, and the block just allocated stays allocated.
\<close>

theorem request_then_release_counterexample:
  "valid owned100 \<and>
   requestMemory True [] ''P1'' 20 (CHR ''F'') owned100 =
     Inr (Allocated,
          \<lparr>memory_head =
             [\<lparr>start_address = 0, size' = 30, is_allocated = 1, process_id = ''P1''\<rparr>,
              \<lparr>start_address = 30, size' = 20, is_allocated = 1, process_id = ''P1''\<rparr>,
              \<lparr>start_address = 50, size' = 50, is_allocated = 0, process_id = ''FREE''\<rparr>],
           total_memory_size = 100\<rparr>) \<and>
   releaseMemory ''P1''
     \<lparr>memory_head =
        [\<lparr>start_address = 0, size' = 30, is_allocated = 1, process_id = ''P1''\<rparr>,
         \<lparr>start_address = 30, size' = 20, is_allocated = 1, process_id = ''P1''\<rparr>,
         \<lparr>start_address = 50, size' = 50, is_allocated = 0, process_id = ''FREE''\<rparr>],
      total_memory_size = 100\<rparr> =
     (Released,
      \<lparr>memory_head =
         [\<lparr>start_address = 0, size' = 30, is_allocated = 0, process_id = ''FREE''\<rparr>,
          \<lparr>start_address = 30, size' = 20, is_allocated = 1, process_id = ''P1''\<rparr>,
          \<lparr>start_address = 50, size' = 50, is_allocated = 0, process_id = ''FREE''\<rparr>],
       total_memory_size = 100\<rparr>) \<and>
   layout
     \<lparr>memory_head =
        [\<lparr>start_address = 0, size' = 30, is_allocated = 0, process_id = ''FREE''\<rparr>,
         \<lparr>start_address = 30, size' = 20, is_allocated = 1, process_id = ''P1''\<rparr>,
         \<lparr>start_address = 50, size' = 50, is_allocated = 0, process_id = ''FREE''\<rparr>],
      total_memory_size = 100\<rparr> \<noteq> layout owned100"
proof (intro conjI)
  show "valid owned100"
    by (simp add: valid_def invariants_def positive_sizes_def owned100_def MAX_MEMORY_def)
  show "requestMemory True [] ''P1'' 20 (CHR ''F'') owned100 =
     Inr (Allocated,
          \<lparr>memory_head =
             [\<lparr>start_address = 0, size' = 30, is_allocated = 1, process_id = ''P1''\<rparr>,
              \<lparr>start_address = 30, size' = 20, is_allocated = 1, process_id = ''P1''\<rparr>,
              \<lparr>start_address = 50, size' = 50, is_allocated = 0, process_id = ''FREE''\<rparr>],
           total_memory_size = 100\<rparr>)"
    by (simp add: requestMemory_def select_block_def firstFit_def owned100_def stored_id_def)
  show "releaseMemory ''P1''
     \<lparr>memory_head =
        [\<lparr>start_address = 0, size' = 30, is_allocated = 1, process_id = ''P1''\<rparr>,
         \<lparr>start_address = 30, size' = 20, is_allocated = 1, process_id = ''P1''\<rparr>,
         \<lparr>start_address = 50, size' = 50, is_allocated = 0, process_id = ''FREE''\<rparr>],
      total_memory_size = 100\<rparr> =
     (Released,
      \<lparr>memory_head =
         [\<lparr>start_address = 0, size' = 30, is_allocated = 0, process_id = ''FREE''\<rparr>,
          \<lparr>start_address = 30, size' = 20, is_allocated = 1, process_id = ''P1''\<rparr>,
          \<lparr>start_address = 50, size' = 50, is_allocated = 0, process_id = ''FREE''\<rparr>],
       total_memory_size = 100\<rparr>)"
    by (simp add: releaseMemory_def)
  show "layout
     \<lparr>memory_head =
        [\<lparr>start_address = 0, size' = 30, is_allocated = 0, process_id = ''FREE''\<rparr>,
         \<lparr>start_address = 30, size' = 20, is_allocated = 1, process_id = ''P1''\<rparr>,
         \<lparr>start_address = 50, size' = 50, is_allocated = 0, process_id = ''FREE''\<rparr>],
      total_memory_size = 100\<rparr> \<noteq> layout owned100"
    by (simp add: layout_def owned100_def)
qed

subsection \<open>compactMemory\<close>

lemma compact_remove_free_filter:
  "compact_remove_free bs = filter (\<lambda>b. is_allocated b \<noteq> 0) bs"
  by (induction bs) auto

lemma compact_move_commute:
  "compact_remove_free (fst (compact_move a bs)) = fst (compact_move a (compact_remove_free bs)) \<and>
   snd (compact_move a bs) = snd (compact_move a (compact_remove_free bs))"
  by (induction bs arbitrary: a) (auto simp: split_beta)

lemma compact_kept_fixed:
  "compact_move a (compact_remove_free (fst (compact_move a bs))) =
     (compact_remove_free (fst (compact_move a bs)), snd (compact_move a bs))"
  by (induction bs arbitrary: a) (auto simp: split_beta)

lemma compact_move_append:
  "compact_move a (xs @ ys) =
     (fst (compact_move a xs) @ fst (compact_move (snd (compact_move a xs)) ys),
      snd (compact_move (snd (compact_move a xs)) ys))"
  by (induction xs arbitrary: a) (auto simp: split_beta)

lemma compact_remove_free_kept:
  "compact_remove_free (compact_remove_free bs) = compact_remove_free bs"
  by (simp add: compact_remove_free_filter)

lemma compact_remove_free_append:
  "compact_remove_free (xs @ ys) = compact_remove_free xs @ compact_remove_free ys"
  by (simp add: compact_remove_free_filter)

lemma compactMemory_compacted:
  "compactMemory True st = Inr (CompactionCompleted, compacted st)"
  by (simp add: compactMemory_def compacted_def split_beta Let_def)

lemma compactMemory_cases:
  "compactMemory malloc_ok st = Inl EXIT_FAILURE \<and> \<not> malloc_ok \<or>
   compactMemory malloc_ok st = Inr (CompactionCompleted, compacted st)"
  by (cases malloc_ok) (auto simp: compactMemory_def compacted_def split_beta Let_def)

lemma compacted_twice: "compacted (compacted st) = compacted st"
proof -
  let ?kept = "compact_remove_free (fst (compact_move 0 (memory_head st)))"
  let ?nfa = "snd (compact_move 0 (memory_head st))"
  let ?tail = "if ucast ?nfa < total_memory_size st
               then [\<lparr>start_address = ?nfa,
                      size' = total_memory_size st - ucast ?nfa,
                      is_allocated = 0, process_id = ''FREE''\<rparr>]
               else []"
  have mem: "memory_head (compacted st) = ?kept @ ?tail"
    and tot: "total_memory_size (compacted st) = total_memory_size st"
    by (simp_all add: compacted_def Let_def)
  have mv: "compact_move 0 (?kept @ ?tail) = (?kept @ ?tail, ?nfa)"
    by (simp add: compact_move_append compact_kept_fixed)
  have rm: "compact_remove_free (?kept @ ?tail) = ?kept"
    by (simp add: compact_remove_free_append compact_remove_free_kept)
  have "compacted (compacted st) = (compacted st)\<lparr>memory_head := ?kept @ ?tail\<rparr>"
    unfolding compacted_def [of "compacted st"] mem tot mv
    by (simp add: rm Let_def)
  then show ?thesis using mem by simp
qed

text \<open>
  C7: compactMemory always completes when its \<open>malloc\<close> succeeds, and run again on the
  state it returns it returns that very state: the same blocks with the same starts, sizes
  and labels, in the same order. This holds for every state, valid or not.
\<close>

theorem compact_idempotent:
  "\<exists>st'. compactMemory True st = Inr (CompactionCompleted, st') \<and>
         compactMemory True st' = Inr (CompactionCompleted, st')"
proof -
  have "compactMemory True (compacted st) = Inr (CompactionCompleted, compacted st)"
    using compactMemory_compacted [of "compacted st"] by (simp add: compacted_twice)
  with compactMemory_compacted [of st] show ?thesis by blast
qed

theorem compact_idempotent_witness:
  "compactMemory True holes100 =
     Inr (CompactionCompleted,
          \<lparr>memory_head =
             [\<lparr>start_address = 0, size' = 20, is_allocated = 1, process_id = ''P2''\<rparr>,
              \<lparr>start_address = 20, size' = 80, is_allocated = 0, process_id = ''FREE''\<rparr>],
           total_memory_size = 100\<rparr>) \<and>
   compactMemory True
     \<lparr>memory_head =
        [\<lparr>start_address = 0, size' = 20, is_allocated = 1, process_id = ''P2''\<rparr>,
         \<lparr>start_address = 20, size' = 80, is_allocated = 0, process_id = ''FREE''\<rparr>],
      total_memory_size = 100\<rparr> =
     Inr (CompactionCompleted,
          \<lparr>memory_head =
             [\<lparr>start_address = 0, size' = 20, is_allocated = 1, process_id = ''P2''\<rparr>,
              \<lparr>start_address = 20, size' = 80, is_allocated = 0, process_id = ''FREE''\<rparr>],
           total_memory_size = 100\<rparr>)"
proof -
  let ?st' = "\<lparr>memory_head =
             [\<lparr>start_address = 0, size' = 20, is_allocated = 1, process_id = ''P2''\<rparr>,
              \<lparr>start_address = 20, size' = 80, is_allocated = 0, process_id = ''FREE''\<rparr>],
           total_memory_size = 100\<rparr>"
  have 1: "compactMemory True holes100 = Inr (CompactionCompleted, ?st')"
    by (simp add: compactMemory_def holes100_def)
  from compact_idempotent [of holes100] obtain st' where
    "compactMemory True holes100 = Inr (CompactionCompleted, st')"
    "compactMemory True st' = Inr (CompactionCompleted, st')"
    by blast
  with 1 have "compactMemory True ?st' = Inr (CompactionCompleted, ?st')"
    by simp
  with 1 show ?thesis by blast
qed

lemma unat_ucast_uint: "unat (ucast (a :: uint) :: size_t) = unat a"
proof -
  have "unat a < 2 ^ 64"
    using unsigned_less [of a, where 'a = nat] by simp
  then show ?thesis
    by (simp add: unsigned_ucast_eq take_bit_nat_eq_self)
qed

lemma compact_move_allocated:
  assumes "list_all (\<lambda>b. is_allocated b \<noteq> 0) bs" "unat a + extent bs < 2 ^ 32"
  shows "length (fst (compact_move a bs)) = length bs \<and>
         (\<forall>k<length bs.
            fst (compact_move a bs) ! k =
              (bs ! k)\<lparr>start_address := start_address (fst (compact_move a bs) ! k)\<rparr> \<and>
            unat (start_address (fst (compact_move a bs) ! k)) = unat a + extent (take k bs)) \<and>
         unat (snd (compact_move a bs)) = unat a + extent bs"
  using assms
proof (induction bs arbitrary: a)
  case Nil
  then show ?case by simp
next
  case (Cons b bs)
  let ?a' = "ucast (ucast a + size' b :: size_t) :: uint"
  from Cons.prems have al: "is_allocated b \<noteq> 0" "list_all (\<lambda>b. is_allocated b \<noteq> 0) bs"
    by simp_all
  from Cons.prems(2) have "unat a + unat (size' b) < 2 ^ 32" by simp
  from unat_advance [OF this] have a': "unat ?a' = unat a + unat (size' b)" .
  with Cons.prems(2) have "unat ?a' + extent bs < 2 ^ 32" by simp
  from Cons.IH [OF al(2) this] a'
  have IH: "length (fst (compact_move ?a' bs)) = length bs"
    "\<forall>k<length bs.
        fst (compact_move ?a' bs) ! k =
          (bs ! k)\<lparr>start_address := start_address (fst (compact_move ?a' bs) ! k)\<rparr> \<and>
        unat (start_address (fst (compact_move ?a' bs) ! k)) =
          unat a + unat (size' b) + extent (take k bs)"
    "unat (snd (compact_move ?a' bs)) = unat a + unat (size' b) + extent bs"
    by simp_all
  have mv: "compact_move a (b # bs) =
      (b\<lparr>start_address := a\<rparr> # fst (compact_move ?a' bs), snd (compact_move ?a' bs))"
    using al(1) by (simp add: split_beta)
  show ?case
    unfolding mv using IH by (auto simp: nth_Cons split: nat.splits)
qed

lemma extent_filter_le: "extent (filter P bs) \<le> extent bs"
  by (induction bs) auto

text \<open>
  C2: in a valid state compactMemory returns the allocated blocks of the input, in their
  order and changed in their start only: the start of each is the sum of the sizes of the
  allocated blocks before it. Behind them comes nothing when their sizes sum to the
  capacity, and otherwise one free block from that sum up to the capacity.
\<close>

theorem compact_repacks:
  assumes v: "valid st"
  shows "\<exists>st' moved trailing.
           compactMemory True st = Inr (CompactionCompleted, st') \<and>
           total_memory_size st' = total_memory_size st \<and>
           memory_head st' = moved @ trailing \<and>
           length moved = length (filter (\<lambda>b. is_allocated b \<noteq> 0) (memory_head st)) \<and>
           (\<forall>k<length moved.
              moved ! k =
                (filter (\<lambda>b. is_allocated b \<noteq> 0) (memory_head st) ! k)
                  \<lparr>start_address := start_address (moved ! k)\<rparr> \<and>
              unat (start_address (moved ! k)) =
                extent (take k (filter (\<lambda>b. is_allocated b \<noteq> 0) (memory_head st)))) \<and>
           (if extent (filter (\<lambda>b. is_allocated b \<noteq> 0) (memory_head st)) =
                 unat (total_memory_size st)
            then trailing = []
            else \<exists>f. trailing = [f] \<and> owner_of f = Free \<and>
                   unat (start_address f) =
                     extent (filter (\<lambda>b. is_allocated b \<noteq> 0) (memory_head st)) \<and>
                   unat (start_address f) + unat (size' f) = unat (total_memory_size st))"
proof -
  let ?mem = "memory_head st" and ?t = "total_memory_size st"
  let ?owned = "filter (\<lambda>b. is_allocated b \<noteq> 0) ?mem"
  let ?moved = "fst (compact_move 0 ?owned)" and ?nfa = "snd (compact_move 0 ?owned)"
  let ?trailing = "if ucast ?nfa < ?t
               then [\<lparr>start_address = ?nfa, size' = ?t - ucast ?nfa,
                      is_allocated = 0, process_id = ''FREE''\<rparr>]
               else []"
  have part: "partitions 0 ?mem (unat ?t)"
    using v by (simp add: valid_def invariants_def)
  from partitions_end [OF part] have tot: "unat ?t = extent ?mem" by simp
  have le: "extent ?owned \<le> unat ?t"
    unfolding tot by (rule extent_filter_le)
  with valid_bound [OF v] have small: "unat (0 :: uint) + extent ?owned < 2 ^ 32"
    by simp
  have "list_all (\<lambda>b. is_allocated b \<noteq> 0) ?owned"
    by (simp add: list_all_iff)
  from compact_move_allocated [OF this small]
  have len: "length ?moved = length ?owned"
    and nth: "\<forall>k<length ?owned.
            ?moved ! k = (?owned ! k)\<lparr>start_address := start_address (?moved ! k)\<rparr> \<and>
            unat (start_address (?moved ! k)) = extent (take k ?owned)"
    and nfa: "unat ?nfa = extent ?owned"
    by simp_all
  have kept: "compact_remove_free (fst (compact_move 0 ?mem)) = ?moved"
    and cur: "snd (compact_move 0 ?mem) = ?nfa"
    using compact_move_commute [of 0 ?mem] by (simp_all add: compact_remove_free_filter)
  have st': "memory_head (compacted st) = ?moved @ ?trailing"
    "total_memory_size (compacted st) = ?t"
    by (simp_all add: compacted_def Let_def kept cur)
  have lt: "(ucast ?nfa < ?t) = (extent ?owned \<noteq> unat ?t)"
    using le nfa by (auto simp: word_less_nat_alt unat_ucast_uint)
  have tr: "if extent ?owned = unat ?t then ?trailing = []
            else \<exists>f. ?trailing = [f] \<and> owner_of f = Free \<and>
                   unat (start_address f) = extent ?owned \<and>
                   unat (start_address f) + unat (size' f) = unat ?t"
  proof (cases "extent ?owned = unat ?t")
    case True
    with lt show ?thesis by simp
  next
    case False
    with lt have l: "ucast ?nfa < ?t" by simp
    then have "unat (?t - ucast ?nfa) = unat ?t - unat ?nfa"
      by (simp add: unat_sub unat_ucast_uint)
    with l le nfa False show ?thesis
      by (simp add: owner_of_def)
  qed
  show ?thesis
    using compactMemory_compacted [of st] st' len nth tr
    by (intro exI [of _ "compacted st"] exI [of _ ?moved] exI [of _ ?trailing]) simp
qed

theorem compact_repacks_witness:
  "valid twice100 \<and>
   compactMemory True twice100 =
     Inr (CompactionCompleted,
          \<lparr>memory_head =
             [\<lparr>start_address = 0, size' = 20, is_allocated = 1, process_id = ''P1''\<rparr>,
              \<lparr>start_address = 20, size' = 20, is_allocated = 1, process_id = ''P1''\<rparr>,
              \<lparr>start_address = 40, size' = 60, is_allocated = 0, process_id = ''FREE''\<rparr>],
           total_memory_size = 100\<rparr>) \<and>
   valid full100 \<and>
   compactMemory True full100 = Inr (CompactionCompleted, full100)"
proof -
  have v: "valid twice100"
    by (simp add: valid_def invariants_def positive_sizes_def twice100_def MAX_MEMORY_def)
  have v': "valid full100"
    by (simp add: valid_def invariants_def positive_sizes_def full100_def MAX_MEMORY_def)
  from compact_repacks [OF v]
  have 1: "compactMemory True twice100 =
     Inr (CompactionCompleted,
          \<lparr>memory_head =
             [\<lparr>start_address = 0, size' = 20, is_allocated = 1, process_id = ''P1''\<rparr>,
              \<lparr>start_address = 20, size' = 20, is_allocated = 1, process_id = ''P1''\<rparr>,
              \<lparr>start_address = 40, size' = 60, is_allocated = 0, process_id = ''FREE''\<rparr>],
           total_memory_size = 100\<rparr>)"
    by (simp add: compactMemory_def twice100_def)
  from compact_repacks [OF v']
  have 2: "compactMemory True full100 = Inr (CompactionCompleted, full100)"
    by (simp add: compactMemory_def full100_def)
  from v v' 1 2 show ?thesis by blast
qed

subsection \<open>Every call keeps the invariants\<close>

lemma positive_sizes_append:
  "positive_sizes (xs @ ys) = (positive_sizes xs \<and> positive_sizes ys)"
  by (simp add: positive_sizes_def)

lemma positive_sizes_Cons:
  "positive_sizes (b # bs) = (0 < size' b \<and> positive_sizes bs)"
  by (simp add: positive_sizes_def)

lemma no_adjacent_free_allocated:
  "list_all (\<lambda>b. is_allocated b \<noteq> 0) bs \<Longrightarrow> no_adjacent_free bs"
  by (induction bs) (auto simp: no_adjacent_free_Cons)

lemma unat_add_size_t:
  fixes x y :: size_t
  shows "unat x + unat y < 2 ^ 64 \<Longrightarrow> unat (x + y) = unat x + unat y"
  using unat_add_lem [of x y] by simp

lemma absorb_partitions:
  assumes "partitions a (xs @ p # c # ys) t" "t < 2 ^ 64"
  shows "partitions a (xs @ p\<lparr>size' := size' p + size' c\<rparr> # ys) t"
proof -
  let ?m = "a + extent xs"
  from assms(1) have xs: "partitions a xs ?m" and rest: "partitions ?m (p # c # ys) t"
    by (simp_all add: partitions_append)
  from partitions_end [OF rest] assms(2) have "unat (size' p) + unat (size' c) < 2 ^ 64"
    by simp
  then have "unat (size' p + size' c) = unat (size' p) + unat (size' c)"
    by (rule unat_add_size_t)
  with rest have "partitions ?m (p\<lparr>size' := size' p + size' c\<rparr> # ys) t"
    by (simp add: add.assoc)
  with xs show ?thesis by (simp add: partitions_append)
qed

lemma absorb_positive:
  assumes "positive_sizes (xs @ p # c # ys)"
  shows "positive_sizes (xs @ p\<lparr>size' := size' p + size' c\<rparr> # ys) \<or>
         2 ^ 64 \<le> unat (size' p) + unat (size' c)"
proof (cases "unat (size' p) + unat (size' c) < 2 ^ 64")
  case True
  then have "unat (size' p + size' c) = unat (size' p) + unat (size' c)"
    by (rule unat_add_size_t)
  moreover from assms have "0 < unat (size' p)"
    by (simp add: positive_sizes_append positive_sizes_Cons word_less_nat_alt)
  ultimately have "0 < size' p + size' c"
    by (simp add: word_less_nat_alt)
  with assms show ?thesis
    by (simp add: positive_sizes_append positive_sizes_Cons)
next
  case False
  then show ?thesis by simp
qed

lemma release_loop_Some:
  assumes "release_loop pid [] mem = Some r"
  shows "\<exists>before cur after. mem = before @ cur # after \<and>
           (\<forall>b\<in>set before. \<not> owned_by pid b) \<and> owned_by pid cur"
proof -
  have "\<exists>b\<in>set mem. owned_by pid b"
    using assms release_loop_None [of mem pid "[]"] by auto
  from split_list_first_prop [OF this] show ?thesis by blast
qed

lemma release_keeps_invariants:
  assumes part: "partitions 0 (before @ cur # after) t" and t: "t < 2 ^ 64"
    and pos: "positive_sizes (before @ cur # after)"
    and adj: "no_adjacent_free (before @ cur # after)"
    and nb: "\<forall>b\<in>set before. \<not> owned_by pid b" and own: "owned_by pid cur"
    and res: "release_loop pid [] (before @ cur # after) = Some r"
  shows "partitions 0 r t \<and> positive_sizes r \<and> no_adjacent_free r \<and> r \<noteq> []"
proof -
  let ?freed = "cur\<lparr>is_allocated := 0, process_id := ''FREE''\<rparr>"
  let ?L = "before \<noteq> [] \<and> is_allocated (last before) = 0"
  let ?R = "after \<noteq> [] \<and> is_allocated (hd after) = 0"
  from adj have adj_b: "no_adjacent_free before" and adj_a: "no_adjacent_free after"
    by (simp_all add: no_adjacent_free_append no_adjacent_free_Cons)
  have part0: "partitions 0 (before @ ?freed # after) t"
    using part by (simp add: partitions_append)
  have pos0: "positive_sizes (before @ ?freed # after)"
    using pos by (simp add: positive_sizes_append positive_sizes_Cons)
  \<comment> \<open>after the merge with prev\<close>
  have "\<exists>X m. partitions 0 (X @ m # after) t \<and> positive_sizes (X @ m # after) \<and>
          no_adjacent_free X \<and> (X = [] \<or> is_allocated (last X) \<noteq> 0) \<and> is_allocated m = 0 \<and>
          (X, m) = (if ?L then (butlast before,
                                (last before)\<lparr>size' := size' (last before) + size' ?freed\<rparr>)
                    else (before, ?freed))"
  proof (cases ?L)
    case True
    then obtain kb prev where b: "before = kb @ [prev]" and fr: "is_allocated prev = 0"
      by (metis snoc_eq_iff_butlast)
    let ?m = "prev\<lparr>size' := size' prev + size' ?freed\<rparr>"
    have p: "partitions 0 (kb @ ?m # after) t"
      using absorb_partitions [of 0 kb prev ?freed after t] part0 t b by simp
    have "partitions 0 (kb @ prev # ?freed # after) t"
      using part0 b by simp
    from partitions_end [OF this] t have "unat (size' prev) + unat (size' ?freed) < 2 ^ 64"
      by simp
    with absorb_positive [of kb prev ?freed after] pos0 b
    have s: "positive_sizes (kb @ ?m # after)" by simp
    from adj_b b fr have "no_adjacent_free kb" "kb = [] \<or> is_allocated (last kb) \<noteq> 0"
      by (auto simp: no_adjacent_free_append)
    with p s fr b True show ?thesis
      by (intro exI [of _ kb] exI [of _ ?m]) simp
  next
    case False
    with part0 pos0 adj_b show ?thesis
      by (intro exI [of _ before] exI [of _ ?freed]) auto
  qed
  then obtain X m where
    p1: "partitions 0 (X @ m # after) t" and s1: "positive_sizes (X @ m # after)"
    and aX: "no_adjacent_free X" "X = [] \<or> is_allocated (last X) \<noteq> 0" and fm: "is_allocated m = 0"
    and Xm: "(X, m) = (if ?L then (butlast before,
                                (last before)\<lparr>size' := size' (last before) + size' ?freed\<rparr>)
                    else (before, ?freed))"
    by blast
  \<comment> \<open>after the merge with next\<close>
  have "\<exists>m' Y. partitions 0 (X @ m' # Y) t \<and> positive_sizes (X @ m' # Y) \<and>
          no_adjacent_free Y \<and> (Y = [] \<or> is_allocated (hd Y) \<noteq> 0) \<and> is_allocated m' = 0 \<and>
          (m', Y) = (if ?R then (m\<lparr>size' := size' m + size' (hd after)\<rparr>, tl after)
                     else (m, after))"
  proof (cases ?R)
    case True
    then obtain "next" ka where a: "after = next # ka" and fr: "is_allocated next = 0"
      by (cases after) auto
    let ?m' = "m\<lparr>size' := size' m + size' next\<rparr>"
    have p: "partitions 0 (X @ ?m' # ka) t"
      using absorb_partitions [of 0 X m "next" ka t] p1 t a by simp
    from partitions_end [OF p1] t a have "unat (size' m) + unat (size' next) < 2 ^ 64"
      by simp
    with absorb_positive [of X m "next" ka] s1 a
    have s: "positive_sizes (X @ ?m' # ka)" by simp
    from adj_a a fr have "no_adjacent_free ka" "ka = [] \<or> is_allocated (hd ka) \<noteq> 0"
      by (auto simp: no_adjacent_free_Cons)
    with p s fm a True show ?thesis
      by (intro exI [of _ ?m'] exI [of _ ka]) simp
  next
    case False
    with p1 s1 adj_a fm show ?thesis
      by (intro exI [of _ m] exI [of _ after]) auto
  qed
  then obtain m' Y where
    p2: "partitions 0 (X @ m' # Y) t" and s2: "positive_sizes (X @ m' # Y)"
    and aY: "no_adjacent_free Y" "Y = [] \<or> is_allocated (hd Y) \<noteq> 0" and fm': "is_allocated m' = 0"
    and mY: "(m', Y) = (if ?R then (m\<lparr>size' := size' m + size' (hd after)\<rparr>, tl after)
                     else (m, after))"
    by blast
  have adj2: "no_adjacent_free (X @ m' # Y)"
    using aX aY by (auto simp: no_adjacent_free_append no_adjacent_free_Cons)
  have "r = X @ [m'] @ Y"
    using res unfolding release_loop_found [OF nb own]
    by (simp only: Let_def Xm [symmetric] mY [symmetric] prod.case option.inject)
  with p2 s2 adj2 show ?thesis by simp
qed

lemma valid_releaseMemory:
  assumes v: "valid st"
  shows "valid (snd (releaseMemory pid st))"
proof (cases "release_loop pid [] (memory_head st)")
  case None
  with v show ?thesis by (simp add: releaseMemory_def)
next
  case (Some r)
  from release_loop_Some [OF Some] obtain before cur after where
    mem: "memory_head st = before @ cur # after"
    and nb: "\<forall>b\<in>set before. \<not> owned_by pid b" and own: "owned_by pid cur"
    by blast
  let ?t = "unat (total_memory_size st)"
  from valid_bound [OF v] have t: "?t < 2 ^ 64" by simp
  from v mem have "partitions 0 (before @ cur # after) ?t"
    "positive_sizes (before @ cur # after)" "no_adjacent_free (before @ cur # after)"
    by (simp_all add: valid_def invariants_def)
  from release_keeps_invariants [OF this(1) t this(2,3) nb own] Some mem
  have "partitions 0 r ?t \<and> positive_sizes r \<and> no_adjacent_free r \<and> r \<noteq> []"
    by simp
  with v Some show ?thesis
    by (simp add: releaseMemory_def valid_def invariants_def)
qed

lemma placed_keeps_invariants:
  assumes part: "partitions 0 (pre @ c # post) t" and t: "t < 2 ^ 32"
    and pos: "positive_sizes (pre @ c # post)"
    and adj: "no_adjacent_free (pre @ c # post)"
    and fit: "fits sz c" and sz: "0 < sz"
  shows "partitions 0 (pre @ placed unwritten pid sz c @ post) t \<and>
         positive_sizes (pre @ placed unwritten pid sz c @ post) \<and>
         no_adjacent_free (pre @ placed unwritten pid sz c @ post)"
proof (cases "sz < size' c")
  case True
  let ?o = "c\<lparr>size' := sz, is_allocated := 1, process_id := stored_id unwritten pid\<rparr>"
  let ?r = "\<lparr>start_address = ucast (ucast (start_address c) + sz :: size_t),
          size' = size' c - sz, is_allocated = 0, process_id = ''FREE''\<rparr>"
  let ?m = "0 + extent pre"
  from part have pre: "partitions 0 pre ?m" and rest: "partitions ?m (c # post) t"
    by (simp_all add: partitions_append)
  from True have lt: "unat sz < unat (size' c)" by (simp add: word_less_nat_alt)
  from partitions_end [OF rest] t have "unat (start_address c) + unat (size' c) < 2 ^ 32"
    using rest by simp
  with lt have "unat (start_address c) + unat sz < 2 ^ 32" by simp
  from unat_advance [OF this] have rs: "unat (start_address ?r) = unat (start_address c) + unat sz"
    by simp
  have rz: "unat (size' ?r) = unat (size' c) - unat sz"
    using True by (simp add: unat_sub)
  have "partitions ?m (?o # ?r # post) t"
    using rest rs rz lt by simp
  with pre have p: "partitions 0 (pre @ ?o # ?r # post) t"
    by (simp add: partitions_append)
  have "0 < size' ?r"
    using rz lt by (simp add: word_less_nat_alt)
  with pos sz have s: "positive_sizes (pre @ ?o # ?r # post)"
    by (simp add: positive_sizes_append positive_sizes_Cons)
  from fit have "is_allocated c = 0" by (simp add: fits_def)
  with adj have a: "no_adjacent_free (pre @ ?o # ?r # post)"
    by (auto simp: no_adjacent_free_append no_adjacent_free_Cons)
  from p s a True show ?thesis by (simp add: placed_def)
next
  case False
  let ?o = "c\<lparr>is_allocated := 1, process_id := stored_id unwritten pid\<rparr>"
  have p: "partitions 0 (pre @ ?o # post) t"
    using part by (simp add: partitions_append)
  have s: "positive_sizes (pre @ ?o # post)"
    using pos by (simp add: positive_sizes_append positive_sizes_Cons)
  have a: "no_adjacent_free (pre @ ?o # post)"
    using adj by (auto simp: no_adjacent_free_append no_adjacent_free_Cons)
  from p s a False show ?thesis by (simp add: placed_def)
qed

lemma valid_requestMemory:
  assumes v: "valid st" and sz: "0 < sz"
    and req: "requestMemory malloc_ok unwritten pid sz strategy st = Inr (m, st')"
  shows "valid st'"
proof (cases m)
  case Allocated
  let ?mem = "memory_head st"
  from requestMemory_Allocated [OF req [unfolded Allocated]] obtain i where
    len: "i < length ?mem" and fit: "fits sz (?mem ! i)"
    and st': "st' = st\<lparr>memory_head := take i ?mem @ placed unwritten pid sz (?mem ! i) @ drop (Suc i) ?mem\<rparr>"
    by blast
  have mem: "?mem = take i ?mem @ ?mem ! i # drop (Suc i) ?mem"
    using len by (rule id_take_nth_drop)
  let ?t = "unat (total_memory_size st)"
  from v have "partitions 0 ?mem ?t" "positive_sizes ?mem" "no_adjacent_free ?mem"
    by (simp_all add: valid_def invariants_def)
  then have "partitions 0 (take i ?mem @ ?mem ! i # drop (Suc i) ?mem) ?t"
    "positive_sizes (take i ?mem @ ?mem ! i # drop (Suc i) ?mem)"
    "no_adjacent_free (take i ?mem @ ?mem ! i # drop (Suc i) ?mem)"
    using mem by simp_all
  from placed_keeps_invariants [OF this(1) valid_bound [OF v] this(2,3) fit sz, of unwritten pid]
  have "partitions 0 (memory_head st') ?t \<and> positive_sizes (memory_head st') \<and>
        no_adjacent_free (memory_head st')"
    by (simp add: st')
  moreover have "memory_head st' \<noteq> []"
    by (simp add: st' placed_def)
  ultimately show ?thesis
    using v by (simp add: valid_def invariants_def st')
next
  case InsufficientSpace
  with req have "st' = st"
    by (auto simp: requestMemory_def Let_def split: option.splits if_splits)
  with v show ?thesis by simp
qed (use req in \<open>auto simp: requestMemory_def Let_def split: option.splits if_splits\<close>)

lemma compact_move_tiles:
  assumes "list_all (\<lambda>b. is_allocated b \<noteq> 0) bs" "unat a + extent bs < 2 ^ 32"
  shows "partitions (unat a) (fst (compact_move a bs)) (unat a + extent bs) \<and>
         list_all (\<lambda>b. is_allocated b \<noteq> 0) (fst (compact_move a bs)) \<and>
         (positive_sizes bs \<longrightarrow> positive_sizes (fst (compact_move a bs)))"
  using assms
proof (induction bs arbitrary: a)
  case Nil
  then show ?case by (simp add: positive_sizes_def)
next
  case (Cons b bs)
  let ?a' = "ucast (ucast a + size' b :: size_t) :: uint"
  from Cons.prems have al: "is_allocated b \<noteq> 0" "list_all (\<lambda>b. is_allocated b \<noteq> 0) bs"
    by simp_all
  from Cons.prems(2) have "unat a + unat (size' b) < 2 ^ 32" by simp
  from unat_advance [OF this] have a': "unat ?a' = unat a + unat (size' b)" .
  with Cons.prems(2) have "unat ?a' + extent bs < 2 ^ 32" by simp
  from Cons.IH [OF al(2) this] a'
  have IH: "partitions (unat a + unat (size' b)) (fst (compact_move ?a' bs))
              (unat a + unat (size' b) + extent bs)"
    "list_all (\<lambda>b. is_allocated b \<noteq> 0) (fst (compact_move ?a' bs))"
    "positive_sizes bs \<longrightarrow> positive_sizes (fst (compact_move ?a' bs))"
    by simp_all
  have mv: "fst (compact_move a (b # bs)) = b\<lparr>start_address := a\<rparr> # fst (compact_move ?a' bs)"
    using al(1) by (simp add: split_beta)
  show ?case
    unfolding mv using IH al(1) by (simp add: positive_sizes_Cons add.assoc)
qed

lemma valid_compacted:
  assumes v: "valid st"
  shows "valid (compacted st)"
proof -
  let ?mem = "memory_head st" and ?t = "total_memory_size st"
  define owned where "owned = filter (\<lambda>b. is_allocated b \<noteq> 0) ?mem"
  define moved where "moved = fst (compact_move 0 owned)"
  define nfa where "nfa = snd (compact_move 0 owned)"
  define free_block where
    "free_block = \<lparr>start_address = nfa, size' = ?t - ucast nfa,
                    is_allocated = 0, process_id = ''FREE''\<rparr>"
  define trailing where "trailing = (if ucast nfa < ?t then [free_block] else [])"
  from v have part: "partitions 0 ?mem (unat ?t)" and pos: "positive_sizes ?mem"
    and t0: "0 < unat ?t"
    by (simp_all add: valid_def invariants_def word_less_nat_alt)
  from partitions_end [OF part] have tot: "unat ?t = extent ?mem" by simp
  have le: "extent owned \<le> unat ?t"
    unfolding tot owned_def by (rule extent_filter_le)
  with valid_bound [OF v] have small: "unat (0 :: uint) + extent owned < 2 ^ 32"
    by simp
  have al: "list_all (\<lambda>b. is_allocated b \<noteq> 0) owned"
    by (simp add: owned_def list_all_iff)
  have po: "positive_sizes owned"
    using pos by (simp add: owned_def positive_sizes_def list_all_iff)
  from compact_move_tiles [OF al small] po
  have mp: "partitions 0 moved (extent owned)"
    and ma: "list_all (\<lambda>b. is_allocated b \<noteq> 0) moved"
    and ms: "positive_sizes moved"
    by (simp_all add: moved_def)
  from compact_move_allocated [OF al small]
  have nfa: "unat nfa = extent owned" and len: "length moved = length owned"
    by (simp_all add: nfa_def moved_def)
  have kept: "compact_remove_free (fst (compact_move 0 ?mem)) = moved"
    and cur: "snd (compact_move 0 ?mem) = nfa"
    using compact_move_commute [of 0 ?mem]
    by (simp_all add: compact_remove_free_filter moved_def nfa_def owned_def)
  have st': "memory_head (compacted st) = moved @ trailing"
    "total_memory_size (compacted st) = ?t"
    by (simp_all add: compacted_def Let_def kept cur trailing_def free_block_def)
  have lt: "(ucast nfa < ?t) = (extent owned < unat ?t)"
    using nfa by (simp add: word_less_nat_alt unat_ucast_uint)
  have "partitions (extent owned) trailing (unat ?t) \<and> positive_sizes trailing"
  proof (cases "ucast nfa < ?t")
    case True
    then have "unat (?t - ucast nfa) = unat ?t - extent owned"
      using nfa by (simp add: unat_sub unat_ucast_uint)
    moreover from True lt have "extent owned < unat ?t" by simp
    ultimately have "unat (start_address free_block) = extent owned"
      "extent owned + unat (size' free_block) = unat ?t" "0 < unat (size' free_block)"
      using nfa by (simp_all add: free_block_def)
    with True show ?thesis
      by (simp add: trailing_def positive_sizes_def word_less_nat_alt)
  next
    case False
    with lt le have "extent owned = unat ?t" by simp
    with False show ?thesis
      by (simp add: trailing_def positive_sizes_def)
  qed
  then have tp: "partitions (extent owned) trailing (unat ?t)"
    and ts: "positive_sizes trailing"
    by simp_all
  have p: "partitions 0 (moved @ trailing) (unat ?t)"
    using mp tp partitions_end [OF mp] by (simp add: partitions_append)
  have s: "positive_sizes (moved @ trailing)"
    using ms ts by (simp add: positive_sizes_append)
  have "moved = [] \<or> is_allocated (last moved) \<noteq> 0"
    using ma by (auto simp: list_all_iff)
  moreover have "no_adjacent_free trailing"
    by (simp add: trailing_def)
  ultimately have a: "no_adjacent_free (moved @ trailing)"
    using no_adjacent_free_allocated [OF ma] by (auto simp: no_adjacent_free_append)
  have n: "moved @ trailing \<noteq> []"
  proof (cases "owned = []")
    case True
    with lt t0 show ?thesis by (simp add: trailing_def)
  next
    case False
    with len have "moved \<noteq> []" by auto
    then show ?thesis by simp
  qed
  from p s a n v show ?thesis
    by (simp add: valid_def invariants_def st')
qed

lemma valid_startup:
  assumes "startup malloc_ok memory_size = Inr st"
  shows "valid st"
proof -
  from assms have sz: "memory_size \<noteq> 0" "memory_size \<le> MAX_MEMORY"
    and st: "st = \<lparr>memory_head =
                  [\<lparr>start_address = 0, size' = memory_size, is_allocated = 0,
                    process_id = ''FREE''\<rparr>],
                total_memory_size = memory_size\<rparr>"
    by (auto simp: startup_def initializeMemory_def split: if_splits)
  from sz(1) have "0 < memory_size" by (simp add: word_greater_zero_iff)
  with sz(2) show ?thesis
    by (simp add: st valid_def invariants_def positive_sizes_def)
qed

lemma total_requestMemory:
  "requestMemory malloc_ok unwritten pid sz strategy st = Inr (m, st') \<Longrightarrow>
   total_memory_size st' = total_memory_size st"
  by (auto simp: requestMemory_def Let_def split: option.splits if_splits)

lemma total_releaseMemory:
  "total_memory_size (snd (releaseMemory pid st)) = total_memory_size st"
  by (simp add: releaseMemory_def split: option.splits)

lemma total_compacted: "total_memory_size (compacted st) = total_memory_size st"
  by (simp add: compacted_def Let_def)

lemma valid_apply_call:
  assumes v: "valid st" and c: "positive_request c"
  shows "case apply_call c st of
           Inr st' \<Rightarrow> valid st' \<and> total_memory_size st' = total_memory_size st
         | Inl e \<Rightarrow> \<not> fst c"
proof -
  obtain malloc_ok unwritten call where Pair: "c = (malloc_ok, unwritten, call)"
    by (cases c) auto
  show ?thesis
  proof (cases call)
    case (Request pid sz strategy)
    with c Pair have sz: "0 < sz" by simp
    from requestMemory_cases [of malloc_ok unwritten pid sz strategy st]
    consider "requestMemory malloc_ok unwritten pid sz strategy st = Inl EXIT_FAILURE" "\<not> malloc_ok"
      | m st' where "requestMemory malloc_ok unwritten pid sz strategy st = Inr (m, st')"
      by blast
    then show ?thesis
    proof cases
      case 1
      then show ?thesis by (simp add: Pair Request)
    next
      case 2
      from valid_requestMemory [OF v sz 2] total_requestMemory [OF 2] 2 show ?thesis
        by (simp add: Pair Request)
    qed
  next
    case (Release pid)
    with valid_releaseMemory [OF v, of pid] total_releaseMemory [of pid st] show ?thesis
      by (simp add: Pair)
  next
    case Compact
    from compactMemory_cases [of malloc_ok st] valid_compacted [OF v] total_compacted [of st]
    show ?thesis
      by (auto simp: Pair Compact)
  qed
qed

lemma valid_run:
  "valid st \<Longrightarrow> list_all positive_request calls \<Longrightarrow>
   (case run calls st of
      Inr st' \<Rightarrow> valid st' \<and> total_memory_size st' = total_memory_size st
    | Inl e \<Rightarrow> \<not> list_all fst calls)"
proof (induction calls arbitrary: st)
  case Nil
  then show ?case by simp
next
  case (Cons c calls)
  from Cons.prems have c: "positive_request c" and cs: "list_all positive_request calls"
    by simp_all
  show ?case
  proof (cases "apply_call c st")
    case (Inl e)
    with valid_apply_call [OF Cons.prems(1) c] show ?thesis by simp
  next
    case (Inr st1)
    with valid_apply_call [OF Cons.prems(1) c]
    have v1: "valid st1" and t1: "total_memory_size st1 = total_memory_size st"
      by simp_all
    from Cons.IH [OF v1 cs] t1 Inr show ?thesis
      by (simp split: sum.splits)
  qed
qed

text \<open>
  C1: start from the allocator that \<open>main\<close> sets up and make any sequence of request,
  release and compact calls, every request with a positive size (and any strategy
  character, F, B and W among them). Either some \<open>malloc\<close> failed and the process
  exited, or the final block list tiles \<open>[0, total)\<close> in order, has no two free
  neighbours and no block of size 0, and the capacity is the one given at startup.
\<close>

theorem invariants_after_calls:
  assumes init: "startup malloc_ok memory_size = Inr st0"
    and calls: "list_all positive_request calls"
  shows "case run calls st0 of
           Inr st \<Rightarrow> invariants st \<and> total_memory_size st = memory_size
         | Inl e \<Rightarrow> \<not> list_all fst calls"
proof -
  from init have "total_memory_size st0 = memory_size"
    by (auto simp: startup_def initializeMemory_def split: if_splits)
  with valid_run [OF valid_startup [OF init] calls] show ?thesis
    by (auto simp: valid_def split: sum.splits)
qed


theorem invariants_after_calls_witness:
  "startup True 100 = Inr fresh100 \<and>
   list_all positive_request
     [(True, [], Request ''P1'' 30 (CHR ''F'')), (True, [], Request ''P2'' 20 (CHR ''B'')),
      (True, [], Release ''P1''), (True, [], Request ''P3'' 50 (CHR ''W'')), (True, [], Compact)] \<and>
   run [(True, [], Request ''P1'' 30 (CHR ''F'')), (True, [], Request ''P2'' 20 (CHR ''B'')),
        (True, [], Release ''P1''), (True, [], Request ''P3'' 50 (CHR ''W'')), (True, [], Compact)] fresh100 =
     Inr \<lparr>memory_head =
            [\<lparr>start_address = 0, size' = 20, is_allocated = 1, process_id = ''P2''\<rparr>,
             \<lparr>start_address = 20, size' = 50, is_allocated = 1, process_id = ''P3''\<rparr>,
             \<lparr>start_address = 70, size' = 30, is_allocated = 0, process_id = ''FREE''\<rparr>],
          total_memory_size = 100\<rparr> \<and>
   invariants
     \<lparr>memory_head =
        [\<lparr>start_address = 0, size' = 20, is_allocated = 1, process_id = ''P2''\<rparr>,
         \<lparr>start_address = 20, size' = 50, is_allocated = 1, process_id = ''P3''\<rparr>,
         \<lparr>start_address = 70, size' = 30, is_allocated = 0, process_id = ''FREE''\<rparr>],
      total_memory_size = 100\<rparr>"
proof -
  let ?calls = "[(True, [], Request ''P1'' 30 (CHR ''F'')), (True, [], Request ''P2'' 20 (CHR ''B'')),
      (True, [], Release ''P1''), (True, [], Request ''P3'' 50 (CHR ''W'')), (True, [], Compact)]"
  let ?st = "\<lparr>memory_head =
        [\<lparr>start_address = 0, size' = 20, is_allocated = 1, process_id = ''P2''\<rparr>,
         \<lparr>start_address = 20, size' = 50, is_allocated = 1, process_id = ''P3''\<rparr>,
         \<lparr>start_address = 70, size' = 30, is_allocated = 0, process_id = ''FREE''\<rparr>],
      total_memory_size = 100\<rparr>"
  have i: "startup True 100 = Inr fresh100"
    by (simp add: startup_def initializeMemory_def fresh100_def MAX_MEMORY_def)
  have c: "list_all positive_request ?calls" by simp
  have r: "run ?calls fresh100 = Inr ?st"
    by (simp add: fresh100_def requestMemory_def select_block_def firstFit_def bestFit_def
        worstFit_def releaseMemory_def compactMemory_def stored_id_def)
  from invariants_after_calls [OF i c] r have "invariants ?st" by simp
  with i c r show ?thesis by blast
qed

end
